theory Spec2Isabelle
  imports Main "HOL-Library.Word" "HOL-Library.Signed_Division"
begin

unbundle bit_operations_syntax

section \<open>The HMA lock manager of server.c\<close>

text \<open>
  The development embeds the functions of \<^verbatim>\<open>src/server.c\<close> that run on behalf of
  one connection (\<^verbatim>\<open>struct Server\<close>) attached to one mapped \<^verbatim>\<open>*-hma\<close> file
  (\<^verbatim>\<open>struct ServerHMA\<close>). Everything outside the calling thread is an oracle of the
  environment record \<open>env\<close>, indexed by the number of interactions made so far (the field
  \<open>tick\<close> of the state): the answers of \<^verbatim>\<open>fcntl\<close>, \<^verbatim>\<open>gettimeofday\<close>,
  \<^verbatim>\<open>sqlite3_realloc\<close>, \<^verbatim>\<open>serverOpenHma\<close>, \<^verbatim>\<open>sqlite3PagerRollbackJournal\<close> and
  \<^verbatim>\<open>sqlite3OsLock\<close>, and what the other connections do to the mapped words between two
  accesses of this thread. The process-wide mutex is not modelled, and neither are the
  assertions, which a release build leaves out.
\<close>

subsection \<open>Constants and result codes\<close>

type_synonym u32 = "32 word"

definition HMA_CLIENT_SLOTS :: int where
  "HMA_CLIENT_SLOTS = 16"

definition HMA_PAGELOCK_SLOTS :: int where
  "HMA_PAGELOCK_SLOTS = 256 * 1024"

text \<open>The result codes that the functions of the file return or pass on.\<close>

datatype rc = SQLITE_OK | SQLITE_ERROR | SQLITE_BUSY | SQLITE_NOMEM | SQLITE_BUSY_DEADLOCK
  | SQLITE_IOERR

text \<open>The lock modes \<^verbatim>\<open>SERVER_NO_LOCK\<close> (1), \<^verbatim>\<open>SERVER_READ_LOCK\<close> (2) and
  \<^verbatim>\<open>SERVER_WRITE_LOCK\<close> (3); the assertion of \<^verbatim>\<open>posixLock\<close> admits no other.\<close>

datatype elock = SERVER_NO_LOCK | SERVER_READ_LOCK | SERVER_WRITE_LOCK

subsection \<open>The operating system\<close>

datatype l_type = F_UNLCK | F_RDLCK | F_WRLCK

datatype whence = SEEK_SET | SEEK_CUR | SEEK_END

datatype fcntl_cmd = F_SETLK | F_SETLKW

datatype errno = EACCES | EAGAIN | EBADF | EDEADLK | EINTR | EINVAL | ENOLCK

record flock =
  l_type :: l_type
  l_whence :: whence
  l_start :: int
  l_len :: int

datatype log_entry =
    Log_rolling_back int
  | Log_conflict u32
  | Log_writer_time int

record env =
  fcntl :: "nat \<Rightarrow> int \<Rightarrow> fcntl_cmd \<Rightarrow> flock \<Rightarrow> int \<times> errno"
  gettimeofday :: "nat \<Rightarrow> int \<times> int"
  realloc_ok :: "nat \<Rightarrow> nat \<Rightarrow> bool"
  serverOpenHma :: "nat \<Rightarrow> rc"
  rollbackJournal :: "nat \<Rightarrow> int \<Rightarrow> rc"
  osLock :: "nat \<Rightarrow> rc"
  peers :: "nat \<Rightarrow> (int \<Rightarrow> u32) \<Rightarrow> (int \<Rightarrow> u32)"

text \<open>
  The state of one connection and of the HMA object it points to. The fields \<open>fd\<close>,
  \<open>nClient\<close>, \<open>aClient\<close> and \<open>aMap\<close> are those of \<^verbatim>\<open>struct ServerHMA\<close>, the fields
  from \<open>iClient\<close> on those of \<^verbatim>\<open>struct Server\<close>. Arrays are stores from the C index to the
  cell: \<open>aClient i\<close> says whether \<^verbatim>\<open>aClient[i]\<close> is a non-null pointer, \<open>aMap i\<close> is the
  32-bit word \<^verbatim>\<open>aMap[i]\<close>. The declared bounds of \<^verbatim>\<open>aClient\<close> are 0 to 15; an access at
  another index is an access outside the array, which the store records as it is made.
  \<open>hma_live\<close> is false once \<^verbatim>\<open>serverDecrHmaRefcount\<close> has unmapped, closed and freed
  the object, \<open>hma_unlinked\<close> is set when the file has been unlinked. The 64-bit counters
  \<open>nUsWrite\<close> and \<open>iUsWrite\<close> are integers (microseconds since 1970 are far from the
  64-bit bound); \<open>nAlloc\<close> and \<open>nLock\<close>, which never go below zero, are naturals.
\<close>

record state =
  tick :: nat
  logs :: "log_entry list"
  fd :: int
  nClient :: int
  aClient :: "int \<Rightarrow> bool"
  aMap :: "int \<Rightarrow> u32"
  hma_live :: bool
  hma_unlinked :: bool
  iClient :: int
  nUsWrite :: int
  iUsWrite :: int
  nAlloc :: nat
  nLock :: nat
  aLock :: "nat \<Rightarrow> u32"

definition aType :: "elock \<Rightarrow> l_type" where
  "aType e = (case e of SERVER_NO_LOCK \<Rightarrow> F_UNLCK | SERVER_READ_LOCK \<Rightarrow> F_RDLCK
     | SERVER_WRITE_LOCK \<Rightarrow> F_WRLCK)"

definition posixLock_request :: "int \<Rightarrow> elock \<Rightarrow> flock" where
  "posixLock_request iSlot eLock =
     \<lparr>l_type = aType eLock, l_whence = SEEK_SET, l_start = iSlot * 4, l_len = 1\<rparr>"

definition posixLock :: "env \<Rightarrow> int \<Rightarrow> int \<Rightarrow> elock \<Rightarrow> bool \<Rightarrow> state \<Rightarrow> rc \<times> state" where
  "posixLock E fd' iSlot eLock bBlock s =
     (let l = posixLock_request iSlot eLock;
          (res, err) = fcntl E (tick s) fd' (if bBlock then F_SETLKW else F_SETLK) l;
          s' = s\<lparr>tick := Suc (tick s)\<rparr>
      in if res \<noteq> 0 \<and> bBlock \<and> err = EDEADLK then (SQLITE_BUSY_DEADLOCK, s')
         else (if res = 0 then SQLITE_OK else SQLITE_BUSY, s'))"

subsection \<open>The mapped words\<close>

text \<open>
  Before this thread reads a mapped word or runs a compare-and-swap on it, the other
  connections may have changed the mapping: \<open>peers E t\<close> is what they do at interaction
  \<open>t\<close>. \<open>cas\<close> is \<^verbatim>\<open>__sync_val_compare_and_swap\<close>: it returns the word found and stores
  the new one when the word found is the expected one.
\<close>

definition peers_step :: "env \<Rightarrow> state \<Rightarrow> state" where
  "peers_step E s = s\<lparr>aMap := peers E (tick s) (aMap s), tick := Suc (tick s)\<rparr>"

definition load :: "env \<Rightarrow> int \<Rightarrow> state \<Rightarrow> u32 \<times> state" where
  "load E pSlot s = (let s' = peers_step E s in (aMap s' pSlot, s'))"

definition cas :: "env \<Rightarrow> int \<Rightarrow> u32 \<Rightarrow> u32 \<Rightarrow> state \<Rightarrow> u32 \<times> state" where
  "cas E pSlot v n s =
     (let s' = peers_step E s; old = aMap s' pSlot
      in (old, if old = v then s'\<lparr>aMap := (aMap s')(pSlot := n)\<rparr> else s'))"

definition serverPageLockSlot :: "u32 \<Rightarrow> int" where
  "serverPageLockSlot pgno = 1 + HMA_CLIENT_SLOTS + uint pgno mod HMA_PAGELOCK_SLOTS"

definition serverClientSlot :: "int \<Rightarrow> int" where
  "serverClientSlot i = 1 + i"

text \<open>The idioms of the slot format: \<^verbatim>\<open>1 << i\<close>, \<^verbatim>\<open>(1<<HMA_CLIENT_SLOTS)-1\<close>,
  \<^verbatim>\<open>v >> HMA_CLIENT_SLOTS\<close> and \<^verbatim>\<open>(i+1) << HMA_CLIENT_SLOTS\<close>. C leaves a shift by a
  negative amount or by 32 and more undefined; here it is \<open>push_bit\<close> on the word.\<close>

definition reader_bit :: "int \<Rightarrow> u32" where
  "reader_bit i = push_bit (nat i) 1"

definition reader_mask :: u32 where
  "reader_mask = push_bit 16 1 - 1"

definition write_field :: "u32 \<Rightarrow> u32" where
  "write_field v = drop_bit 16 v"

definition writer_bits :: "int \<Rightarrow> u32" where
  "writer_bits i = push_bit 16 (word_of_int (i + 1))"

definition serverWriteLocker :: "u32 \<Rightarrow> int" where
  "serverWriteLocker v = uint (write_field v) - 1"

subsection \<open>Recovery of a failed client\<close>

fun rollback_cas :: "env \<Rightarrow> nat \<Rightarrow> int \<Rightarrow> int \<Rightarrow> u32 \<Rightarrow> state \<Rightarrow> state option" where
  "rollback_cas E 0 pSlot iBlock v s = None"
| "rollback_cas E (Suc k) pSlot iBlock v s =
     (let n = v AND NOT (reader_bit iBlock);
          n = (if write_field v = word_of_int (iBlock + 1) then n AND reader_mask else n);
          (old, s1) = cas E pSlot v n s
      in if old = v then Some s1
         else (let (v', s2) = load E pSlot s1 in rollback_cas E k pSlot iBlock v' s2))"

fun rollback_slots :: "env \<Rightarrow> nat \<Rightarrow> int \<Rightarrow> nat list \<Rightarrow> state \<Rightarrow> state option" where
  "rollback_slots E k iBlock [] s = Some s"
| "rollback_slots E k iBlock (i # is) s =
     (let pSlot = serverPageLockSlot (of_nat i);
          (v, s1) = load E pSlot s
      in case rollback_cas E k pSlot iBlock v s1 of
           None \<Rightarrow> None
         | Some s2 \<Rightarrow> rollback_slots E k iBlock is s2)"

definition serverRollbackClient :: "env \<Rightarrow> nat \<Rightarrow> int \<Rightarrow> state \<Rightarrow> (rc \<times> state) option" where
  "serverRollbackClient E k iBlock s =
     (let s1 = s\<lparr>logs := logs s @ [Log_rolling_back iBlock]\<rparr>;
          rc = rollbackJournal E (tick s1) iBlock;
          s2 = s1\<lparr>tick := Suc (tick s1)\<rparr>
      in if rc = SQLITE_OK
         then map_option (Pair rc) (rollback_slots E k iBlock [0..<nat HMA_PAGELOCK_SLOTS] s2)
         else Some (rc, s2))"

subsection \<open>Connecting and disconnecting\<close>

definition serverDecrHmaRefcount :: "state \<Rightarrow> state" where
  "serverDecrHmaRefcount s =
     (let s1 = s\<lparr>nClient := nClient s - 1\<rparr>
      in if nClient s1 \<le> 0 then s1\<lparr>hma_live := False\<rparr> else s1)"

text \<open>\<open>pHma\<close> says whether \<^verbatim>\<open>p->pHma\<close> is set, \<open>dbfd\<close> whether a file handle is passed.\<close>

definition sqlite3ServerDisconnect :: "env \<Rightarrow> bool \<Rightarrow> bool \<Rightarrow> state \<Rightarrow> state" where
  "sqlite3ServerDisconnect E pHma dbfd s =
     (if pHma then
        (let s1 = (if iClient s \<ge> 0 then
                     (let s' = s\<lparr>aMap := (aMap s)(serverClientSlot (iClient s) := 0),
                                 aClient := (aClient s)(iClient s := False)\<rparr>
                      in snd (posixLock E (fd s') (iClient s' + 1) SERVER_NO_LOCK False s'))
                   else s);
             s2 = (if dbfd \<and> nClient s1 = 1 then
                     (let s' = s1\<lparr>tick := Suc (tick s1)\<rparr>
                      in if osLock E (tick s1) = SQLITE_OK then s'\<lparr>hma_unlinked := True\<rparr> else s')
                   else s1)
         in serverDecrHmaRefcount s2)
      else s)"

function connect_scan :: "env \<Rightarrow> nat \<Rightarrow> int \<Rightarrow> state \<Rightarrow> (int \<times> rc \<times> state) option" where
  "connect_scan E k i s =
     (if i < HMA_CLIENT_SLOTS then
        (if \<not> aClient s i then
           (let (res, s1) = posixLock E (fd s) (i + 1) SERVER_WRITE_LOCK False s
            in if res = SQLITE_OK then
                 (let (v, s2) = load E (serverClientSlot i) s1
                  in case (if v \<noteq> 0 then serverRollbackClient E k i s2
                           else Some (SQLITE_OK, s2)) of
                       None \<Rightarrow> None
                     | Some (rc, s3) \<Rightarrow>
                         Some (i, rc, snd (posixLock E (fd s3) (i + 1)
                           (if rc = SQLITE_OK then SERVER_READ_LOCK else SERVER_NO_LOCK)
                           False s3)))
               else connect_scan E k (i + 1) s1)
         else connect_scan E k (i + 1) s)
      else Some (i, SQLITE_OK, s))"
  by pat_completeness auto
termination
  by (relation "measure (\<lambda>(E, k, i, s). nat (HMA_CLIENT_SLOTS - i))") auto

declare connect_scan.simps [simp del]

text \<open>
  \<^verbatim>\<open>sqlite3ServerConnect\<close>, from the point where the \<^verbatim>\<open>Server\<close> object has been
  allocated (when the allocation fails the function hands the null pointer to
  \<^verbatim>\<open>sqlite3ServerDisconnect\<close>, which reads through it). The state passed in holds the
  HMA object that \<^verbatim>\<open>serverOpenHma\<close> hands over when it returns OK (\<^verbatim>\<open>serverOpenHma\<close>
  itself, which finds or creates the object, is an oracle of the environment); the fields
  of the new \<^verbatim>\<open>Server\<close> are set by the function. On a result other than OK the object is
  passed to \<^verbatim>\<open>sqlite3ServerDisconnect\<close> and \<^verbatim>\<open>*ppOut\<close> is null.
\<close>

definition sqlite3ServerConnect :: "env \<Rightarrow> nat \<Rightarrow> state \<Rightarrow> (rc \<times> state) option" where
  "sqlite3ServerConnect E k s =
     (let s0 = s\<lparr>iClient := -1, nUsWrite := 0, iUsWrite := 0, nAlloc := 0, nLock := 0\<rparr>;
          rc0 = serverOpenHma E (tick s0);
          s1 = s0\<lparr>tick := Suc (tick s0)\<rparr>
      in if rc0 \<noteq> SQLITE_OK then Some (rc0, sqlite3ServerDisconnect E False False s1)
         else
           (case connect_scan E k 0 s1 of
              None \<Rightarrow> None
            | Some (i, rc, s2) \<Rightarrow>
                (let (rc', s3) =
                       (if rc = SQLITE_OK then
                          (if i > HMA_CLIENT_SLOTS then (SQLITE_BUSY, s2)
                           else (rc, s2\<lparr>iClient := i,
                                        aClient := (aClient s2)(i := True),
                                        aMap := (aMap s2)(serverClientSlot i := 1)\<rparr>))
                        else (rc, s2))
                 in if rc' \<noteq> SQLITE_OK
                    then Some (rc', sqlite3ServerDisconnect E True False s3)
                    else Some (rc', s3))))"

subsection \<open>Overcoming a conflicting lock\<close>

function overcome_scan :: "int \<Rightarrow> u32 \<Rightarrow> int \<Rightarrow> int" where
  "overcome_scan iClient' v iBlock =
     (if iBlock < HMA_CLIENT_SLOTS then
        (if iBlock \<noteq> iClient' \<and> v AND reader_bit iBlock \<noteq> 0 then iBlock
         else overcome_scan iClient' v (iBlock + 1))
      else iBlock)"
  by pat_completeness auto
termination
  by (relation "measure (\<lambda>(c, v, i). nat (HMA_CLIENT_SLOTS - i))") auto

declare overcome_scan.simps [simp del]

definition blocker :: "int \<Rightarrow> u32 \<Rightarrow> int" where
  "blocker iClient' v =
     (let iBlock = uint (write_field v) - 1
      in if iBlock < 0 \<or> iBlock = iClient' then overcome_scan iClient' v 0 else iBlock)"

text \<open>
  \<^verbatim>\<open>serverOvercomeLock\<close> returns the result code and the value left in \<^verbatim>\<open>*pbRetry\<close>,
  which its only caller sets to 0 before the call.
\<close>

definition serverOvercomeLock ::
  "env \<Rightarrow> nat \<Rightarrow> bool \<Rightarrow> bool \<Rightarrow> u32 \<Rightarrow> state \<Rightarrow> (rc \<times> bool \<times> state) option" where
  "serverOvercomeLock E k bWrite bBlock v s =
     (let iBlock = blocker (iClient s) v
      in if \<not> aClient s iBlock then
           (let (rc, s1) = posixLock E (fd s) (iBlock + 1) SERVER_WRITE_LOCK False s
            in if rc = SQLITE_OK then
                 (case serverRollbackClient E k iBlock s1 of
                    None \<Rightarrow> None
                  | Some (rc2, s2) \<Rightarrow>
                      Some (rc2, rc2 = SQLITE_OK,
                            snd (posixLock E (fd s2) (iBlock + 1) SERVER_NO_LOCK False s2)))
               else if rc = SQLITE_BUSY then
                 (let (rc2, bRetry, s2) =
                        (if bBlock then
                           (let (r, s') = posixLock E (fd s1) (iBlock + 1) SERVER_READ_LOCK True s1
                            in if r = SQLITE_OK
                               then (r, True, snd (posixLock E (fd s') (iBlock + 1)
                                                     SERVER_NO_LOCK False s'))
                               else (r, False, s'))
                         else (rc, False, s1))
                  in Some (if rc2 = SQLITE_BUSY then SQLITE_OK else rc2, bRetry, s2))
               else Some (rc, False, s1))
         else Some (SQLITE_OK, False, s))"

subsection \<open>Page locks\<close>

text \<open>The mask of the readers that stand in the way of the request, and the condition
  of the inner loop of \<^verbatim>\<open>sqlite3ServerLock\<close>: the word shows a conflicting lock.\<close>

definition lock_mask :: "bool \<Rightarrow> int \<Rightarrow> u32" where
  "lock_mask bWrite iClient' =
     (if bWrite then reader_mask AND NOT (reader_bit iClient') else 0)"

definition conflict :: "bool \<Rightarrow> int \<Rightarrow> u32 \<Rightarrow> bool" where
  "conflict bWrite iClient' v =
     (let w = serverWriteLocker v
      in (w \<ge> 0 \<and> w \<noteq> iClient') \<or> v AND lock_mask bWrite iClient' \<noteq> 0)"

text \<open>
  The attempt at a RESERVED lock at the head of the body of the inner loop. The first
  component of the result says whether the body ends there with \<^verbatim>\<open>continue\<close>; the others
  are the values of \<^verbatim>\<open>v\<close> and \<^verbatim>\<open>bReserved\<close> after it.
\<close>

definition try_reserved ::
  "env \<Rightarrow> int \<Rightarrow> bool \<Rightarrow> bool \<Rightarrow> u32 \<Rightarrow> bool \<Rightarrow> state \<Rightarrow> bool \<times> u32 \<times> bool \<times> state" where
  "try_reserved E pSlot bWrite bBlock v bReserved s =
     (if serverWriteLocker v < 0 \<and> bWrite \<and> bBlock then
        (let n = v OR writer_bits (iClient s);
             (old, s1) = cas E pSlot v n s
         in if old \<noteq> v then (let (v', s2) = load E pSlot s1 in (True, v', bReserved, s2))
            else (False, n, True, s1))
      else (False, v, bReserved, s))"

text \<open>
  The inner loop of \<^verbatim>\<open>sqlite3ServerLock\<close>, which runs while the word read conflicts with
  the request. It ends with \<open>Inr v\<close> when \<open>v\<close> has no conflict, and with \<open>Inl rc\<close> at a
  \<^verbatim>\<open>goto server_lock_out\<close>; the flag returned is \<^verbatim>\<open>bReserved\<close>. The first argument after
  the environment bounds the number of rounds of every loop: the result is \<open>None\<close> when a
  loop has not ended within the bound.
\<close>

fun lock_conflicts ::
  "env \<Rightarrow> nat \<Rightarrow> u32 \<Rightarrow> bool \<Rightarrow> bool \<Rightarrow> u32 \<Rightarrow> bool \<Rightarrow> state \<Rightarrow> ((rc + u32) \<times> bool \<times> state) option"
where
  "lock_conflicts E 0 pgno bWrite bBlock v bReserved s = None"
| "lock_conflicts E (Suc k) pgno bWrite bBlock v bReserved s =
     (let pSlot = serverPageLockSlot pgno
      in if conflict bWrite (iClient s) v then
           (case try_reserved E pSlot bWrite bBlock v bReserved s of
              (True, v1, bReserved1, s1) \<Rightarrow>
                lock_conflicts E k pgno bWrite bBlock v1 bReserved1 s1
            | (False, v1, bReserved1, s1) \<Rightarrow>
                (case serverOvercomeLock E k bWrite bBlock v1 s1 of
                   None \<Rightarrow> None
                 | Some (rc, bRetry, s2) \<Rightarrow>
                     if rc \<noteq> SQLITE_OK then Some (Inl rc, bReserved1, s2)
                     else if \<not> bRetry then
                       Some (Inl SQLITE_BUSY_DEADLOCK, bReserved1,
                             s2\<lparr>logs := logs s2 @ [Log_conflict pgno]\<rparr>)
                     else (let (v2, s3) = load E pSlot s2
                           in lock_conflicts E k pgno bWrite bBlock v2 bReserved1 s3)))
         else Some (Inr v, bReserved, s))"

text \<open>The outer loop: resolve the conflicts, then try to install the lock.\<close>

fun lock_acquire ::
  "env \<Rightarrow> nat \<Rightarrow> u32 \<Rightarrow> bool \<Rightarrow> bool \<Rightarrow> u32 \<Rightarrow> bool \<Rightarrow> state \<Rightarrow> (rc \<times> bool \<times> state) option"
where
  "lock_acquire E 0 pgno bWrite bBlock v bReserved s = None"
| "lock_acquire E (Suc k) pgno bWrite bBlock v bReserved s =
     (case lock_conflicts E (Suc k) pgno bWrite bBlock v bReserved s of
        None \<Rightarrow> None
      | Some (Inl rc, bReserved1, s1) \<Rightarrow> Some (rc, bReserved1, s1)
      | Some (Inr v1, bReserved1, s1) \<Rightarrow>
          (let pSlot = serverPageLockSlot pgno;
               n = v1 OR reader_bit (iClient s1);
               n = (if bWrite then n OR writer_bits (iClient s1) else n);
               (old, s2) = cas E pSlot v1 n s1
           in if old = v1 then Some (SQLITE_OK, bReserved1, s2)
              else (let (v2, s3) = load E pSlot s2
                    in lock_acquire E k pgno bWrite bBlock v2 bReserved1 s3)))"

text \<open>The loop after \<^verbatim>\<open>server_lock_out\<close> that takes a RESERVED lock back.\<close>

fun lock_unreserve :: "env \<Rightarrow> nat \<Rightarrow> int \<Rightarrow> state \<Rightarrow> state option" where
  "lock_unreserve E 0 pSlot s = None"
| "lock_unreserve E (Suc k) pSlot s =
     (let (v, s1) = load E pSlot s;
          n = v AND reader_mask;
          (old, s2) = cas E pSlot v n s1
      in if old \<noteq> v then lock_unreserve E k pSlot s2 else Some s2)"

definition grow_aLock :: "env \<Rightarrow> state \<Rightarrow> rc \<times> state" where
  "grow_aLock E s =
     (if nLock s = nAlloc s then
        (let nNew = (if nAlloc s \<noteq> 0 then nAlloc s * 2 else 128);
             s' = s\<lparr>tick := Suc (tick s)\<rparr>
         in if realloc_ok E (tick s) (4 * nNew) then (SQLITE_OK, s'\<lparr>nAlloc := nNew\<rparr>)
            else (SQLITE_NOMEM, s'))
      else (SQLITE_OK, s))"

definition already_held :: "bool \<Rightarrow> int \<Rightarrow> u32 \<Rightarrow> bool" where
  "already_held bWrite iClient' v =
     (if bWrite then serverWriteLocker v = iClient'
      else v AND reader_bit iClient' \<noteq> 0)"

text \<open>The code from the label \<^verbatim>\<open>server_lock_out\<close> on: a RESERVED lock set by a call
  that failed is taken back, and a call for page 0 records the time.\<close>

definition writer_start :: "env \<Rightarrow> u32 \<Rightarrow> state \<Rightarrow> state" where
  "writer_start E pgno s =
     (if pgno = 0 then
        (let (sec, usec) = gettimeofday E (tick s)
         in s\<lparr>iUsWrite := sec * 1000000 + usec, tick := Suc (tick s)\<rparr>)
      else s)"

definition server_lock_out ::
  "env \<Rightarrow> nat \<Rightarrow> u32 \<Rightarrow> rc \<Rightarrow> bool \<Rightarrow> state \<Rightarrow> (rc \<times> state) option" where
  "server_lock_out E k pgno rc bReserved s =
     (case (if rc \<noteq> SQLITE_OK \<and> bReserved
            then lock_unreserve E k (serverPageLockSlot pgno) s else Some s) of
        None \<Rightarrow> None
      | Some s1 \<Rightarrow> Some (rc, writer_start E pgno s1))"

definition sqlite3ServerLock ::
  "env \<Rightarrow> nat \<Rightarrow> u32 \<Rightarrow> bool \<Rightarrow> bool \<Rightarrow> state \<Rightarrow> (rc \<times> state) option" where
  "sqlite3ServerLock E k pgno bWrite bBlock s =
     (let pSlot = serverPageLockSlot pgno;
          (rc0, s0) = grow_aLock E s
      in if rc0 = SQLITE_OK then
           (let (v, s1) = load E pSlot s0
            in if already_held bWrite (iClient s1) v
               then server_lock_out E k pgno SQLITE_OK False s1
               else (case lock_acquire E k pgno bWrite bBlock v False
                            (s1\<lparr>aLock := (aLock s1)(nLock s1 := pgno),
                                nLock := Suc (nLock s1)\<rparr>) of
                       None \<Rightarrow> None
                     | Some (rc, bReserved, s2) \<Rightarrow> server_lock_out E k pgno rc bReserved s2))
         else server_lock_out E k pgno rc0 False s0)"

text \<open>
  The rounds of the two loops of \<^verbatim>\<open>sqlite3ServerLock\<close>, as steps between the values of
  the remaining bound, \<^verbatim>\<open>v\<close>, \<^verbatim>\<open>bReserved\<close> and the state at the head of the loop.
  The inner loop goes round once more after a lost compare-and-swap for RESERVED
  (\<^verbatim>\<open>continue\<close>) and after \<^verbatim>\<open>serverOvercomeLock\<close> has asked for a retry; the outer loop
  goes round once more when the inner loop has left a word without conflict and the
  compare-and-swap that installs the lock is lost.
\<close>

type_synonym lock_round = "nat \<times> u32 \<times> bool \<times> state"

inductive inner_round ::
  "env \<Rightarrow> u32 \<Rightarrow> bool \<Rightarrow> bool \<Rightarrow> lock_round \<Rightarrow> lock_round \<Rightarrow> bool"
  for E pgno bWrite bBlock
where
  reserved_lost:
    "conflict bWrite (iClient s) v \<Longrightarrow>
     try_reserved E (serverPageLockSlot pgno) bWrite bBlock v bR s = (True, v1, bR1, s1) \<Longrightarrow>
     inner_round E pgno bWrite bBlock (Suc k, v, bR, s) (k, v1, bR1, s1)"
| retry:
    "conflict bWrite (iClient s) v \<Longrightarrow>
     try_reserved E (serverPageLockSlot pgno) bWrite bBlock v bR s = (False, v1, bR1, s1) \<Longrightarrow>
     serverOvercomeLock E k bWrite bBlock v1 s1 = Some (SQLITE_OK, True, s2) \<Longrightarrow>
     load E (serverPageLockSlot pgno) s2 = (v2, s3) \<Longrightarrow>
     inner_round E pgno bWrite bBlock (Suc k, v, bR, s) (k, v2, bR1, s3)"

inductive outer_round ::
  "env \<Rightarrow> u32 \<Rightarrow> bool \<Rightarrow> bool \<Rightarrow> lock_round \<Rightarrow> lock_round \<Rightarrow> bool"
  for E pgno bWrite bBlock
where
  cas_lost:
    "lock_conflicts E (Suc k) pgno bWrite bBlock v bR s = Some (Inr v1, bR1, s1) \<Longrightarrow>
     cas E (serverPageLockSlot pgno) v1
       (let n = v1 OR reader_bit (iClient s1)
        in if bWrite then n OR writer_bits (iClient s1) else n) s1 = (old, s2) \<Longrightarrow>
     old \<noteq> v1 \<Longrightarrow>
     load E (serverPageLockSlot pgno) s2 = (v2, s3) \<Longrightarrow>
     outer_round E pgno bWrite bBlock (Suc k, v, bR, s) (k, v2, bR1, s3)"

definition sqlite3ServerHasLock :: "state \<Rightarrow> u32 \<Rightarrow> bool \<Rightarrow> bool" where
  "sqlite3ServerHasLock s pgno bWrite =
     (let v = aMap s (serverPageLockSlot pgno)
      in if bWrite then write_field v = word_of_int (iClient s + 1)
         else v AND reader_bit (iClient s) \<noteq> 0)"

subsection \<open>Transactions\<close>

definition sqlite3ServerBegin :: "env \<Rightarrow> nat \<Rightarrow> state \<Rightarrow> (rc \<times> state) option" where
  "sqlite3ServerBegin E k s =
     (let (rc, s1) = posixLock E (fd s) (iClient s + 1) SERVER_WRITE_LOCK True s
      in if rc \<noteq> SQLITE_OK then Some (rc, s1)
         else sqlite3ServerLock E k 1 False True s1)"

fun end_cas :: "env \<Rightarrow> nat \<Rightarrow> int \<Rightarrow> state \<Rightarrow> state option" where
  "end_cas E 0 pSlot s = None"
| "end_cas E (Suc k) pSlot s =
     (let (v, s1) = load E pSlot s;
          n = v;
          n = (if write_field v = word_of_int (iClient s1 + 1) then n AND reader_mask else n);
          n = n AND NOT (reader_bit (iClient s1));
          (old, s2) = cas E pSlot v n s1
      in if old = v then Some s2 else end_cas E k pSlot s2)"

text \<open>The accounting of the time for which the WRITER lock (page 0) was held; the
  division of 64-bit integers in C truncates towards zero.\<close>

definition end_writer_time :: "env \<Rightarrow> state \<Rightarrow> state" where
  "end_writer_time E s =
     (let (sec, usec) = gettimeofday E (tick s);
          nUs = sec * 1000000 + usec - iUsWrite s;
          s1 = s\<lparr>nUsWrite := nUsWrite s + nUs, tick := Suc (tick s)\<rparr>
      in if nUsWrite s1 sdiv 1000000 \<noteq> (nUsWrite s1 + nUs) sdiv 1000000
         then s1\<lparr>logs := logs s1 @ [Log_writer_time (nUsWrite s1 sdiv 1000)]\<rparr>
         else s1)"

text \<open>The body of the loop of \<^verbatim>\<open>sqlite3ServerEnd\<close> for one recorded page, and the loop
  over the recorded pages \<^verbatim>\<open>aLock[0]\<close> to \<^verbatim>\<open>aLock[nLock-1]\<close>, which the body leaves
  as they are.\<close>

definition end_page :: "env \<Rightarrow> nat \<Rightarrow> u32 \<Rightarrow> state \<Rightarrow> state option" where
  "end_page E k pgno s =
     (case end_cas E k (serverPageLockSlot pgno) s of
        None \<Rightarrow> None
      | Some s1 \<Rightarrow> Some (if pgno = 0 then end_writer_time E s1 else s1))"

fun end_pages :: "env \<Rightarrow> nat \<Rightarrow> u32 list \<Rightarrow> state \<Rightarrow> state option" where
  "end_pages E k [] s = Some s"
| "end_pages E k (pgno # ps) s =
     (case end_page E k pgno s of None \<Rightarrow> None | Some s1 \<Rightarrow> end_pages E k ps s1)"

definition history :: "state \<Rightarrow> u32 list" where
  "history s = map (aLock s) [0..<nLock s]"

definition sqlite3ServerEnd :: "env \<Rightarrow> nat \<Rightarrow> state \<Rightarrow> (rc \<times> state) option" where
  "sqlite3ServerEnd E k s =
     (case end_pages E k (history s) s of
        None \<Rightarrow> None
      | Some s1 \<Rightarrow>
          Some (posixLock E (fd s1) (iClient s1 + 1) SERVER_READ_LOCK False (s1\<lparr>nLock := 0\<rparr>)))"

subsection \<open>What a client contributes to a page-lock word\<close>

text \<open>
  Client \<open>i\<close> holds SHARED in a word when its bit of the reader mask is set, and it holds
  RESERVED or EXCLUSIVE when the write field is \<open>i + 1\<close>. The page-lock slots are the
  words \<open>17\<close> to \<open>17 + 262143\<close> of the mapping.
\<close>

definition holds_shared :: "int \<Rightarrow> u32 \<Rightarrow> bool" where
  "holds_shared i v = (v AND reader_bit i \<noteq> 0)"

definition holds_write :: "int \<Rightarrow> u32 \<Rightarrow> bool" where
  "holds_write i v = (write_field v = word_of_int (i + 1))"

definition contributes :: "int \<Rightarrow> u32 \<Rightarrow> bool" where
  "contributes i v = (holds_shared i v \<or> holds_write i v)"

definition is_page_slot :: "int \<Rightarrow> bool" where
  "is_page_slot k = (1 + HMA_CLIENT_SLOTS \<le> k \<and> k < 1 + HMA_CLIENT_SLOTS + HMA_PAGELOCK_SLOTS)"

text \<open>Every page-lock word names at most the 16 clients in its write field.\<close>

definition wf_map :: "(int \<Rightarrow> u32) \<Rightarrow> bool" where
  "wf_map m = (\<forall>k. is_page_slot k \<longrightarrow> write_field (m k) \<le> 16)"

text \<open>
  What the calling connection relies on: the other connections keep the write fields in
  range, and they neither set nor clear the reader bit of client \<open>i\<close> nor give or take
  its ownership of a write field.
\<close>

definition keeps :: "int \<Rightarrow> (int \<Rightarrow> u32) \<Rightarrow> (int \<Rightarrow> u32) \<Rightarrow> bool" where
  "keeps i m m' = (\<forall>k. is_page_slot k \<longrightarrow>
     (holds_shared i (m' k) \<longleftrightarrow> holds_shared i (m k)) \<and>
     (holds_write i (m' k) \<longleftrightarrow> holds_write i (m k)))"

definition rely :: "env \<Rightarrow> int \<Rightarrow> bool" where
  "rely E i = (\<forall>t m. keeps i m (peers E t m) \<and> (wf_map m \<longrightarrow> wf_map (peers E t m)))"

text \<open>The lock-history covers every page-lock slot to which the connection contributes.\<close>

definition covers :: "state \<Rightarrow> bool" where
  "covers s = (\<forall>k. is_page_slot k \<and> contributes (iClient s) (aMap s k)
     \<longrightarrow> k \<in> serverPageLockSlot ` set (history s))"

text \<open>
  Relations between two mappings, for client \<open>i\<close>: \<open>calm\<close> when the second keeps the
  contributions of the client and the range of the write fields; \<open>frame_at\<close> when it does
  so in every page-lock slot but \<open>p\<close>; \<open>track\<close> when moreover, in slot \<open>p\<close>, the reader bit
  of the client is as in the first and its ownership of the write field is as in the
  first or comes from the RESERVED lock that the flag stands for.
\<close>

definition calm :: "int \<Rightarrow> (int \<Rightarrow> u32) \<Rightarrow> (int \<Rightarrow> u32) \<Rightarrow> bool" where
  "calm i m m' = (keeps i m m' \<and> (wf_map m \<longrightarrow> wf_map m'))"

definition frame_at :: "int \<Rightarrow> int \<Rightarrow> (int \<Rightarrow> u32) \<Rightarrow> (int \<Rightarrow> u32) \<Rightarrow> bool" where
  "frame_at i p m0 m = (wf_map m \<and> (\<forall>q. is_page_slot q \<and> q \<noteq> p \<longrightarrow>
     (holds_shared i (m q) \<longleftrightarrow> holds_shared i (m0 q)) \<and>
     (holds_write i (m q) \<longleftrightarrow> holds_write i (m0 q))))"

definition track :: "int \<Rightarrow> int \<Rightarrow> (int \<Rightarrow> u32) \<Rightarrow> bool \<Rightarrow> (int \<Rightarrow> u32) \<Rightarrow> bool" where
  "track i p m0 bR m = (frame_at i p m0 m
     \<and> (holds_shared i (m p) \<longleftrightarrow> holds_shared i (m0 p))
     \<and> (holds_write i (m p) \<longleftrightarrow> holds_write i (m0 p) \<or> bR))"

subsection \<open>Concrete environments and states\<close>

definition env0 :: env where
  "env0 = \<lparr>fcntl = (\<lambda>t f c l. (0, EAGAIN)), gettimeofday = (\<lambda>t. (1, 500000)),
     realloc_ok = (\<lambda>t n. True),
     serverOpenHma = (\<lambda>t. SQLITE_OK), rollbackJournal = (\<lambda>t i. SQLITE_OK),
     osLock = (\<lambda>t. SQLITE_OK), peers = (\<lambda>t m. m)\<rparr>"

definition env_ebadf :: env where
  "env_ebadf = env0\<lparr>fcntl := (\<lambda>t f c l. (-1, EBADF))\<rparr>"

definition state0 :: state where
  "state0 = \<lparr>tick = 0, logs = [], fd = 3, nClient = 1, aClient = (\<lambda>i. False),
     aMap = (\<lambda>i. 0), hma_live = True, hma_unlinked = False, iClient = 0, nUsWrite = 0,
     iUsWrite = 0, nAlloc = 0, nLock = 0, aLock = (\<lambda>i. 0)\<rparr>"

definition state_full :: state where
  "state_full = \<lparr>tick = 0, logs = [], fd = 3, nClient = 16,
     aClient = (\<lambda>i. 0 \<le> i \<and> i < 16), aMap = (\<lambda>i. if 1 \<le> i \<and> i \<le> 16 then 1 else 0),
     hma_live = True, hma_unlinked = False, iClient = 0, nUsWrite = 0,
     iUsWrite = 0, nAlloc = 0, nLock = 0, aLock = (\<lambda>i. 0)\<rparr>"

text \<open>Allocation fails.\<close>

definition env_nomem :: env where
  "env_nomem = env0\<lparr>realloc_ok := (\<lambda>t n. False)\<rparr>"

text \<open>Client 0 next to a local client 1 that holds SHARED on page 0.\<close>

definition state_peer :: state where
  "state_peer = state0\<lparr>nClient := 2, aClient := (\<lambda>i. i = 0 \<or> i = 1),
     aMap := (\<lambda>i. if i = 1 \<or> i = 2 then 1 else if i = 17 then 2 else 0)\<rparr>"

text \<open>Client 0 holds SHARED on page 5, which is the one page of its history.\<close>

definition state_held :: state where
  "state_held = state0\<lparr>aClient := (\<lambda>i. i = 0),
     aMap := (\<lambda>i. if i = 1 \<or> i = 22 then 1 else 0),
     nAlloc := 128, nLock := 1, aLock := (\<lambda>i. if i = 0 then 5 else 0)\<rparr>"

text \<open>Client 0 holds SHARED on the pages 1 to 128, and its history buffer is full.\<close>

definition state_hist128 :: state where
  "state_hist128 = state0\<lparr>aClient := (\<lambda>i. i = 0),
     aMap := (\<lambda>i. if i = 1 \<or> (18 \<le> i \<and> i \<le> 145) then 1 else 0),
     nAlloc := 128, nLock := 128, aLock := (\<lambda>i. if i < 128 then of_nat (i + 1) else 0)\<rparr>"

text \<open>Client 0 holds EXCLUSIVE on the pages 1 to 128, and its history buffer is full.\<close>

definition state_excl128 :: state where
  "state_excl128 = state0\<lparr>aClient := (\<lambda>i. i = 0),
     aMap := (\<lambda>i. if i = 1 then 1 else if 18 \<le> i \<and> i \<le> 145 then 0x10001 else 0),
     nAlloc := 128, nLock := 128, aLock := (\<lambda>i. if i < 128 then of_nat (i + 1) else 0)\<rparr>"

text \<open>Client 0 next to a local client 1 that holds no lock yet, and an environment in
  which client 1 takes SHARED on page 0 at the third interaction.\<close>

definition state_peer_idle :: state where
  "state_peer_idle = state0\<lparr>nClient := 2, aClient := (\<lambda>i. i = 0 \<or> i = 1),
     aMap := (\<lambda>i. if i = 1 \<or> i = 2 then 1 else 0)\<rparr>"

definition env_late_reader :: env where
  "env_late_reader = env0\<lparr>peers := (\<lambda>t m. if t = 2 then m(17 := 2) else m)\<rparr>"

text \<open>Client 0 holds the WRITER lock (page 0) since 1.3 s, with 0.9 s of WRITER time so
  far; and the same since 0.9 s with no WRITER time so far. The clock of \<open>env0\<close> stands at
  1.5 s.\<close>

definition state_writer :: state where
  "state_writer = state0\<lparr>aClient := (\<lambda>i. i = 0),
     aMap := (\<lambda>i. if i = 1 then 1 else if i = 17 then 0x10001 else 0),
     nUsWrite := 900000, iUsWrite := 1300000,
     nAlloc := 128, nLock := 1, aLock := (\<lambda>i. 0)\<rparr>"

definition state_writer2 :: state where
  "state_writer2 = state_writer\<lparr>nUsWrite := 0, iUsWrite := 900000\<rparr>"

text \<open>The part of the state that belongs to the connection and its process alone.\<close>

definition priv :: "state \<Rightarrow> state" where
  "priv s = s\<lparr>tick := 0, logs := [], aMap := (\<lambda>i. 0)\<rparr>"

section \<open>Theorems\<close>

subsection \<open>The OS lock wrapper\<close>

text \<open>
  C5, as amended. \<^verbatim>\<open>posixLock(fd, iSlot, eLock, bBlock)\<close> makes one \<^verbatim>\<open>fcntl\<close> request,
  for the single byte at offset \<open>iSlot * 4\<close> (length 1, from the start of the file), of the
  type that belongs to the mode, waiting (\<^verbatim>\<open>F_SETLKW\<close>) exactly when \<open>bBlock\<close> is set.
  It returns OK when the request succeeds, BUSY_DEADLOCK when a blocking request fails
  with \<^verbatim>\<open>EDEADLK\<close>, and BUSY on every other failure: the wrapper never returns ERROR.
\<close>

theorem posixLock_result:
  "fst (posixLock E f iSlot eLock bBlock s) =
     (let (res, err) = fcntl E (tick s) f (if bBlock then F_SETLKW else F_SETLK)
            \<lparr>l_type = (case eLock of SERVER_NO_LOCK \<Rightarrow> F_UNLCK | SERVER_READ_LOCK \<Rightarrow> F_RDLCK
                 | SERVER_WRITE_LOCK \<Rightarrow> F_WRLCK),
             l_whence = SEEK_SET, l_start = iSlot * 4, l_len = 1\<rparr>
      in if res = 0 then SQLITE_OK
         else if bBlock \<and> err = EDEADLK then SQLITE_BUSY_DEADLOCK
         else SQLITE_BUSY)
   \<and> fst (posixLock E f iSlot eLock bBlock s) \<noteq> SQLITE_ERROR"
  by (simp add: posixLock_def posixLock_request_def aType_def Let_def split: prod.splits)

theorem posixLock_result_witness:
  "fst (posixLock env_ebadf 3 1 SERVER_WRITE_LOCK False state0) = SQLITE_BUSY"
  using posixLock_result [of env_ebadf 3 1 SERVER_WRITE_LOCK False state0]
  by (simp add: env_ebadf_def env0_def state0_def)

text \<open>
  C5, as stated, fails: when a blocking request fails with \<^verbatim>\<open>EBADF\<close>, an OS failure that
  is neither contention nor a deadlock, the wrapper returns BUSY and not ERROR.
\<close>

theorem posixLock_unexpected_failure_counterexample:
  "fcntl env_ebadf (tick state0) 3 F_SETLKW (posixLock_request 1 SERVER_WRITE_LOCK) = (-1, EBADF)
   \<and> fst (posixLock env_ebadf 3 1 SERVER_WRITE_LOCK True state0) = SQLITE_BUSY
   \<and> fst (posixLock env_ebadf 3 1 SERVER_WRITE_LOCK True state0) \<noteq> SQLITE_ERROR"
  by (simp add: posixLock_def env_ebadf_def env0_def state0_def Let_def)

subsection \<open>Connecting when no client slot is free\<close>

lemma posixLock_frame: "snd (posixLock E f i e b s) = s\<lparr>tick := Suc (tick s)\<rparr>"
  by (simp add: posixLock_def Let_def split: prod.splits)

lemma posixLock_nonblocking_fails:
  "fst (fcntl E (tick s) f F_SETLK (posixLock_request i e)) \<noteq> 0 \<Longrightarrow>
   fst (posixLock E f i e False s) = SQLITE_BUSY"
  by (cases "fcntl E (tick s) f F_SETLK (posixLock_request i e)") (simp add: posixLock_def Let_def)

lemma connect_scan_none_claimable:
  assumes "\<forall>j. i \<le> j \<and> j < HMA_CLIENT_SLOTS \<longrightarrow> aClient s j \<or>
             (\<forall>t. fst (fcntl E t (fd s) F_SETLK (posixLock_request (j + 1) SERVER_WRITE_LOCK)) \<noteq> 0)"
      and "i \<le> HMA_CLIENT_SLOTS"
  shows "\<exists>t. connect_scan E k i s = Some (HMA_CLIENT_SLOTS, SQLITE_OK, s\<lparr>tick := t\<rparr>)"
  using assms
proof (induction "nat (HMA_CLIENT_SLOTS - i)" arbitrary: i s)
  case 0
  then have "i = HMA_CLIENT_SLOTS" by simp
  then have "connect_scan E k i s = Some (HMA_CLIENT_SLOTS, SQLITE_OK, s\<lparr>tick := tick s\<rparr>)"
    by (subst connect_scan.simps) simp
  then show ?case by blast
next
  case (Suc n)
  then have lt: "i < HMA_CLIENT_SLOTS" by simp
  show ?case
  proof (cases "aClient s i")
    case True
    have "\<exists>t. connect_scan E k (i + 1) s = Some (HMA_CLIENT_SLOTS, SQLITE_OK, s\<lparr>tick := t\<rparr>)"
      using Suc.hyps(2) Suc.prems lt by (intro Suc.hyps(1)) auto
    then show ?thesis using True lt by (subst connect_scan.simps) auto
  next
    case False
    then have busy: "fst (posixLock E (fd s) (i + 1) SERVER_WRITE_LOCK False s) = SQLITE_BUSY"
      using Suc.prems(1) lt by (intro posixLock_nonblocking_fails) auto
    let ?s1 = "s\<lparr>tick := Suc (tick s)\<rparr>"
    have "\<exists>t. connect_scan E k (i + 1) ?s1 = Some (HMA_CLIENT_SLOTS, SQLITE_OK, ?s1\<lparr>tick := t\<rparr>)"
      using Suc.hyps(2) Suc.prems lt by (intro Suc.hyps(1)) auto
    then obtain t where "connect_scan E k (i + 1) ?s1 = Some (HMA_CLIENT_SLOTS, SQLITE_OK, s\<lparr>tick := t\<rparr>)"
      by auto
    moreover have "posixLock E (fd s) (i + 1) SERVER_WRITE_LOCK False s = (SQLITE_BUSY, ?s1)"
      using busy posixLock_frame [of E "fd s" "i + 1" SERVER_WRITE_LOCK False s]
      by (metis prod.collapse)
    ultimately show ?thesis using False lt by (subst connect_scan.simps) auto
  qed
qed

text \<open>
  C1. The claim fails on the code. When every one of the 16 slot indices is occupied by a
  local client or refuses the non-blocking writer-lock, the scan of
  \<^verbatim>\<open>sqlite3ServerConnect\<close> ends with \<open>i = 16\<close>. The test \<^verbatim>\<open>i>HMA_CLIENT_SLOTS\<close> that
  guards the BUSY result is false for it, so the function returns OK with client id 16,
  stores into \<^verbatim>\<open>aClient[16]\<close>, one cell past the array, and writes 1 into the mapped
  word \<^verbatim>\<open>aMap[17]\<close>, which is the page-lock slot of page 0.
\<close>

theorem connect_no_slot_claimable:
  assumes "serverOpenHma E (tick s) = SQLITE_OK"
      and "\<forall>j. 0 \<le> j \<and> j < HMA_CLIENT_SLOTS \<longrightarrow> aClient s j \<or>
             (\<forall>t. fst (fcntl E t (fd s) F_SETLK (posixLock_request (j + 1) SERVER_WRITE_LOCK)) \<noteq> 0)"
  shows "\<exists>s'. sqlite3ServerConnect E k s = Some (SQLITE_OK, s')
           \<and> iClient s' = HMA_CLIENT_SLOTS
           \<and> aClient s' HMA_CLIENT_SLOTS
           \<and> aMap s' (serverPageLockSlot 0) = 1"
proof -
  let ?s1 = "s\<lparr>iClient := -1, nUsWrite := 0, iUsWrite := 0, nAlloc := 0, nLock := 0,
                tick := Suc (tick s)\<rparr>"
  have "\<exists>t. connect_scan E k 0 ?s1 = Some (HMA_CLIENT_SLOTS, SQLITE_OK, ?s1\<lparr>tick := t\<rparr>)"
    using assms(2) by (intro connect_scan_none_claimable) (auto simp: HMA_CLIENT_SLOTS_def)
  then obtain t where "connect_scan E k 0 ?s1 = Some (HMA_CLIENT_SLOTS, SQLITE_OK, ?s1\<lparr>tick := t\<rparr>)"
    by blast
  then show ?thesis using assms(1)
    by (simp add: sqlite3ServerConnect_def Let_def serverClientSlot_def serverPageLockSlot_def
        HMA_CLIENT_SLOTS_def HMA_PAGELOCK_SLOTS_def)
qed

theorem connect_no_slot_claimable_witness:
  "fst (the (sqlite3ServerConnect env0 1 state_full)) = SQLITE_OK
   \<and> iClient (snd (the (sqlite3ServerConnect env0 1 state_full))) = 16
   \<and> aMap (snd (the (sqlite3ServerConnect env0 1 state_full))) 17 = 1"
proof -
  have h1: "serverOpenHma env0 (tick state_full) = SQLITE_OK"
    by (simp add: env0_def)
  have h2: "\<forall>j. 0 \<le> j \<and> j < HMA_CLIENT_SLOTS \<longrightarrow> aClient state_full j \<or>
             (\<forall>t. fst (fcntl env0 t (fd state_full) F_SETLK
                (posixLock_request (j + 1) SERVER_WRITE_LOCK)) \<noteq> 0)"
    by (simp add: state_full_def HMA_CLIENT_SLOTS_def)
  show ?thesis
    using connect_no_slot_claimable [OF h1 h2, of 1]
    by (auto simp: HMA_CLIENT_SLOTS_def serverPageLockSlot_def HMA_PAGELOCK_SLOTS_def)
qed

subsection \<open>What the functions leave alone\<close>

lemma posixLock_state: "posixLock E f i e b s = (r, s') \<Longrightarrow> s' = s\<lparr>tick := Suc (tick s)\<rparr>"
  using posixLock_frame [of E f i e b s] by simp

lemma priv_tick [simp]: "priv (s\<lparr>tick := t\<rparr>) = priv s"
  by (simp add: priv_def)

lemma priv_logs [simp]: "priv (s\<lparr>logs := l\<rparr>) = priv s"
  by (simp add: priv_def)

lemma priv_aMap [simp]: "priv (s\<lparr>aMap := m\<rparr>) = priv s"
  by (simp add: priv_def)

lemma priv_posixLock [simp]: "priv (snd (posixLock E f i e b s)) = priv s"
  by (simp add: posixLock_frame)

lemma priv_peers_step [simp]: "priv (peers_step E s) = priv s"
  by (simp add: peers_step_def)

lemma priv_load [simp]: "priv (snd (load E p s)) = priv s"
  by (simp add: load_def Let_def)

lemma priv_cas [simp]: "priv (snd (cas E p v n s)) = priv s"
  by (simp add: cas_def Let_def)

lemma priv_load_eq: "load E p s = (v, s') \<Longrightarrow> priv s' = priv s"
  using priv_load [of E p s] by simp

lemma priv_cas_eq: "cas E p v n s = (old, s') \<Longrightarrow> priv s' = priv s"
  using priv_cas [of E p v n s] by simp

lemma priv_fields:
  assumes "priv s' = priv s"
  shows "iClient s' = iClient s" "fd s' = fd s" "aClient s' = aClient s"
    "nLock s' = nLock s" "aLock s' = aLock s" "nAlloc s' = nAlloc s"
    "iUsWrite s' = iUsWrite s" "nUsWrite s' = nUsWrite s"
proof -
  have "iClient (priv s') = iClient (priv s)" "fd (priv s') = fd (priv s)"
    "aClient (priv s') = aClient (priv s)" "nLock (priv s') = nLock (priv s)"
    "aLock (priv s') = aLock (priv s)" "nAlloc (priv s') = nAlloc (priv s)"
    "iUsWrite (priv s') = iUsWrite (priv s)" "nUsWrite (priv s') = nUsWrite (priv s)"
    using assms by simp_all
  then show "iClient s' = iClient s" "fd s' = fd s" "aClient s' = aClient s"
    "nLock s' = nLock s" "aLock s' = aLock s" "nAlloc s' = nAlloc s"
    "iUsWrite s' = iUsWrite s" "nUsWrite s' = nUsWrite s"
    by (simp_all add: priv_def)
qed

lemma priv_rollback_cas: "rollback_cas E k p b v s = Some s' \<Longrightarrow> priv s' = priv s"
proof (induction k arbitrary: v s)
  case 0
  then show ?case by simp
next
  case (Suc k)
  obtain old s1 where c: "cas E p v (let n = v AND NOT (reader_bit b)
       in if write_field v = word_of_int (b + 1) then n AND reader_mask else n) s = (old, s1)"
    by (cases "cas E p v (let n = v AND NOT (reader_bit b)
       in if write_field v = word_of_int (b + 1) then n AND reader_mask else n) s")
  then have p1: "priv s1 = priv s" by (rule priv_cas_eq)
  show ?case
  proof (cases "old = v")
    case True
    then show ?thesis using Suc.prems c p1 by (simp add: Let_def)
  next
    case False
    obtain v' s2 where l: "load E p s1 = (v', s2)" by (cases "load E p s1")
    then have "priv s2 = priv s1" by (rule priv_load_eq)
    moreover have "rollback_cas E k p b v' s2 = Some s'"
      using Suc.prems c l False by (simp add: Let_def)
    ultimately show ?thesis using Suc.IH p1 by metis
  qed
qed

lemma priv_rollback_slots: "rollback_slots E k b is s = Some s' \<Longrightarrow> priv s' = priv s"
proof (induction "is" arbitrary: s)
  case Nil
  then show ?case by simp
next
  case (Cons i "is")
  obtain v s1 where l: "load E (serverPageLockSlot (of_nat i)) s = (v, s1)"
    by (cases "load E (serverPageLockSlot (of_nat i)) s")
  then have p1: "priv s1 = priv s" by (rule priv_load_eq)
  from Cons.prems l obtain s2 where
    r: "rollback_cas E k (serverPageLockSlot (of_nat i)) b v s1 = Some s2"
    and rest: "rollback_slots E k b is s2 = Some s'"
    by (auto simp: Let_def split: option.splits)
  show ?case using priv_rollback_cas [OF r] Cons.IH [OF rest] p1 by simp
qed

lemma priv_serverRollbackClient:
  "serverRollbackClient E k b s = Some (rc, s') \<Longrightarrow> priv s' = priv s"
  by (auto simp: serverRollbackClient_def Let_def split: if_splits dest!: priv_rollback_slots)

lemma priv_serverOvercomeLock:
  assumes "serverOvercomeLock E k bWrite bBlock v s = Some (rc, bRetry, s')"
  shows "priv s' = priv s"
  using assms
  by (auto simp: serverOvercomeLock_def Let_def posixLock_frame
      split: if_splits prod.splits option.splits
      dest!: priv_serverRollbackClient posixLock_state)


lemma priv_try_reserved:
  "try_reserved E p bWrite bBlock v bR s = (c, v', bR', s') \<Longrightarrow> priv s' = priv s"
  by (auto simp: try_reserved_def Let_def split: if_splits prod.splits
      dest!: priv_cas_eq priv_load_eq)

lemma priv_lock_conflicts:
  "lock_conflicts E k pgno bWrite bBlock v bR s = Some (r, bR', s') \<Longrightarrow> priv s' = priv s"
proof (induction k arbitrary: v bR s)
  case 0
  then show ?case by simp
next
  case (Suc k)
  show ?case
  proof (cases "conflict bWrite (iClient s) v")
    case False
    then show ?thesis using Suc.prems by simp
  next
    case True
    obtain c v1 bR1 s1 where
      t: "try_reserved E (serverPageLockSlot pgno) bWrite bBlock v bR s = (c, v1, bR1, s1)"
      by (cases "try_reserved E (serverPageLockSlot pgno) bWrite bBlock v bR s") auto
    have p1: "priv s1 = priv s" using t by (rule priv_try_reserved)
    show ?thesis
    proof (cases c)
      case True
      then have "lock_conflicts E k pgno bWrite bBlock v1 bR1 s1 = Some (r, bR', s')"
        using Suc.prems \<open>conflict bWrite (iClient s) v\<close> t by simp
      then show ?thesis using Suc.IH p1 by metis
    next
      case False
      then obtain rc bRetry s2 where
        o: "serverOvercomeLock E k bWrite bBlock v1 s1 = Some (rc, bRetry, s2)"
        using Suc.prems \<open>conflict bWrite (iClient s) v\<close> t
        by (auto split: option.splits)
      have p2: "priv s2 = priv s" using priv_serverOvercomeLock [OF o] p1 by simp
      show ?thesis
      proof (cases "rc = SQLITE_OK \<and> bRetry")
        case False
        then show ?thesis
          using Suc.prems \<open>conflict bWrite (iClient s) v\<close> t \<open>\<not> c\<close> o p2
          by (auto split: if_splits)
      next
        case True
        obtain v2 s3 where l: "load E (serverPageLockSlot pgno) s2 = (v2, s3)"
          by (cases "load E (serverPageLockSlot pgno) s2")
        then have "lock_conflicts E k pgno bWrite bBlock v2 bR1 s3 = Some (r, bR', s')"
          using Suc.prems \<open>conflict bWrite (iClient s) v\<close> t \<open>\<not> c\<close> o True by simp
        then have "priv s' = priv s3" by (rule Suc.IH)
        then show ?thesis using priv_load_eq [OF l] p2 by simp
      qed
    qed
  qed
qed

lemma priv_lock_acquire:
  "lock_acquire E k pgno bWrite bBlock v bR s = Some (rc, bR', s') \<Longrightarrow> priv s' = priv s"
proof (induction k arbitrary: v bR s)
  case 0
  then show ?case by simp
next
  case (Suc k)
  from Suc.prems obtain r bR1 s1 where
    c: "lock_conflicts E (Suc k) pgno bWrite bBlock v bR s = Some (r, bR1, s1)"
    by (auto simp del: lock_conflicts.simps split: option.splits)
  have p1: "priv s1 = priv s" using c by (rule priv_lock_conflicts)
  show ?case
  proof (cases r)
    case (Inl rc')
    then show ?thesis using Suc.prems c p1 by (simp del: lock_conflicts.simps)
  next
    case (Inr v1)
    obtain old s2 where
      x: "cas E (serverPageLockSlot pgno) v1
            (let n = v1 OR reader_bit (iClient s1)
             in if bWrite then n OR writer_bits (iClient s1) else n) s1 = (old, s2)"
      by (cases "cas E (serverPageLockSlot pgno) v1
            (let n = v1 OR reader_bit (iClient s1)
             in if bWrite then n OR writer_bits (iClient s1) else n) s1")
    have p2: "priv s2 = priv s" using priv_cas_eq [OF x] p1 by simp
    show ?thesis
    proof (cases "old = v1")
      case True
      then show ?thesis using Suc.prems c Inr x p2 by (simp del: lock_conflicts.simps add: Let_def)
    next
      case False
      obtain v2 s3 where l: "load E (serverPageLockSlot pgno) s2 = (v2, s3)"
        by (cases "load E (serverPageLockSlot pgno) s2")
      then have "lock_acquire E k pgno bWrite bBlock v2 bR1 s3 = Some (rc, bR', s')"
        using Suc.prems c Inr x False by (simp del: lock_conflicts.simps add: Let_def)
      then have "priv s' = priv s3" by (rule Suc.IH)
      then show ?thesis using priv_load_eq [OF l] p2 by simp
    qed
  qed
qed

lemma priv_lock_unreserve: "lock_unreserve E k p s = Some s' \<Longrightarrow> priv s' = priv s"
proof (induction k arbitrary: s)
  case 0
  then show ?case by simp
next
  case (Suc k)
  obtain v s1 where l: "load E p s = (v, s1)" by (cases "load E p s")
  obtain old s2 where x: "cas E p v (v AND reader_mask) s1 = (old, s2)"
    by (cases "cas E p v (v AND reader_mask) s1")
  have p2: "priv s2 = priv s" using priv_cas_eq [OF x] priv_load_eq [OF l] by simp
  show ?case
  proof (cases "old = v")
    case True
    then show ?thesis using Suc.prems l x p2 by (simp add: Let_def)
  next
    case False
    then have "lock_unreserve E k p s2 = Some s'" using Suc.prems l x by (simp add: Let_def)
    then show ?thesis using Suc.IH p2 by metis
  qed
qed

lemma grow_aLock_iUsWrite: "iUsWrite (snd (grow_aLock E s)) = iUsWrite s"
  by (simp add: grow_aLock_def Let_def)

lemma writer_start_iUsWrite:
  "iUsWrite (writer_start E pgno s) =
     (if pgno = 0 then fst (gettimeofday E (tick (writer_start E pgno s) - 1)) * 1000000
                       + snd (gettimeofday E (tick (writer_start E pgno s) - 1))
      else iUsWrite s)"
  by (simp add: writer_start_def Let_def split: prod.splits)

lemma server_lock_out_result:
  assumes "server_lock_out E k pgno rc bR s = Some (rc', s')"
  shows "rc' = rc \<and> (\<exists>s3. priv s3 = priv s \<and> s' = writer_start E pgno s3)"
  using assms
  by (auto simp: server_lock_out_def split: option.splits if_splits dest: priv_lock_unreserve)

lemma lock_result_cases:
  assumes "sqlite3ServerLock E k pgno bWrite bBlock s = Some (rc, s')"
  shows "\<exists>s3. iUsWrite s3 = iUsWrite s \<and> s' = writer_start E pgno s3"
proof -
  obtain rc0 s0 where g: "grow_aLock E s = (rc0, s0)" by (cases "grow_aLock E s")
  then have i0: "iUsWrite s0 = iUsWrite s" using grow_aLock_iUsWrite [of E s] by simp
  obtain v s1 where l: "load E (serverPageLockSlot pgno) s0 = (v, s1)"
    by (cases "load E (serverPageLockSlot pgno) s0")
  have i1: "iUsWrite s1 = iUsWrite s" using priv_fields(7) [OF priv_load_eq [OF l]] i0 by simp
  from assms g l obtain rc1 bR s2 where
    out: "server_lock_out E k pgno rc1 bR s2 = Some (rc, s')" and i2: "iUsWrite s2 = iUsWrite s"
    using i0 i1
    by (auto simp: sqlite3ServerLock_def Let_def split: option.splits if_splits
        dest!: priv_lock_acquire priv_fields(7))
  from server_lock_out_result [OF out] obtain s3 where
    "priv s3 = priv s2" "s' = writer_start E pgno s3" by blast
  then show ?thesis using i2 priv_fields(7) [of s3 s2] by auto
qed

lemmas model_defs =
  sqlite3ServerLock_def server_lock_out_def writer_start_def grow_aLock_def load_def cas_def
  peers_step_def already_held_def serverWriteLocker_def write_field_def reader_bit_def
  reader_mask_def writer_bits_def serverPageLockSlot_def HMA_CLIENT_SLOTS_def
  HMA_PAGELOCK_SLOTS_def conflict_def lock_mask_def try_reserved_def serverOvercomeLock_def
  blocker_def posixLock_def posixLock_request_def

lemmas world_defs = env0_def env_nomem_def state0_def state_peer_def state_held_def
  state_writer_def state_writer2_def

subsection \<open>The start of the WRITER time\<close>

text \<open>
  C9. Whatever \<^verbatim>\<open>sqlite3ServerLock\<close> returns (OK from the fast path or after taking the
  lock, NOMEM, BUSY_DEADLOCK or another error, for a read or a write request), a call for
  page 0 leaves in \<^verbatim>\<open>iUsWrite\<close> the time that \<^verbatim>\<open>gettimeofday\<close> gave as the last
  interaction of the call, in microseconds, and a call for another page leaves
  \<^verbatim>\<open>iUsWrite\<close> as it was.
\<close>

theorem lock_sets_writer_start:
  assumes "sqlite3ServerLock E k pgno bWrite bBlock s = Some (rc, s')"
  shows "iUsWrite s' =
     (if pgno = 0
      then fst (gettimeofday E (tick s' - 1)) * 1000000 + snd (gettimeofday E (tick s' - 1))
      else iUsWrite s)"
  using lock_result_cases [OF assms] writer_start_iUsWrite by auto

lemma lock_page0_fresh:
  "\<exists>s'. sqlite3ServerLock env0 (Suc (Suc 0)) 0 True True state0 = Some (SQLITE_OK, s')"
  by (simp add: model_defs world_defs Let_def)

lemma lock_page0_nomem:
  "\<exists>s'. sqlite3ServerLock env_nomem (Suc (Suc 0)) 0 True True state0 = Some (SQLITE_NOMEM, s')"
  by (simp add: model_defs world_defs Let_def)

lemma lock_page0_deadlock:
  "\<exists>s'. sqlite3ServerLock env0 (Suc (Suc 0)) 0 True True state_peer
          = Some (SQLITE_BUSY_DEADLOCK, s')"
  by (simp add: model_defs world_defs Let_def overcome_scan.simps)

lemma lock_page5_held:
  "\<exists>s'. sqlite3ServerLock env0 (Suc (Suc 0)) 5 False False state_held = Some (SQLITE_OK, s')"
  by (simp add: model_defs world_defs Let_def)

theorem lock_sets_writer_start_witness:
  "iUsWrite (snd (the (sqlite3ServerLock env0 (Suc (Suc 0)) 0 True True state0))) = 1500000
   \<and> iUsWrite (snd (the (sqlite3ServerLock env_nomem (Suc (Suc 0)) 0 True True state0))) = 1500000
   \<and> iUsWrite (snd (the (sqlite3ServerLock env0 (Suc (Suc 0)) 0 True True state_peer))) = 1500000
   \<and> iUsWrite (snd (the (sqlite3ServerLock env0 (Suc (Suc 0)) 5 False False state_held))) = 0"
proof -
  obtain s1 where e1: "sqlite3ServerLock env0 (Suc (Suc 0)) 0 True True state0 = Some (SQLITE_OK, s1)"
    using lock_page0_fresh by blast
  obtain s2 where e2: "sqlite3ServerLock env_nomem (Suc (Suc 0)) 0 True True state0 = Some (SQLITE_NOMEM, s2)"
    using lock_page0_nomem by blast
  obtain s3 where e3: "sqlite3ServerLock env0 (Suc (Suc 0)) 0 True True state_peer = Some (SQLITE_BUSY_DEADLOCK, s3)"
    using lock_page0_deadlock by blast
  obtain s4 where e4: "sqlite3ServerLock env0 (Suc (Suc 0)) 5 False False state_held = Some (SQLITE_OK, s4)"
    using lock_page5_held by blast
  have "iUsWrite s1 = 1500000" "iUsWrite s2 = 1500000" "iUsWrite s3 = 1500000"
    "iUsWrite s4 = 0"
    using lock_sets_writer_start [OF e1] lock_sets_writer_start [OF e2]
      lock_sets_writer_start [OF e3] lock_sets_writer_start [OF e4]
    by (simp_all add: env0_def env_nomem_def state_held_def state0_def)
  then show ?thesis by (simp add: e1 e2 e3 e4)
qed

subsection \<open>The WRITER time at the end of a transaction\<close>

lemmas end_defs = sqlite3ServerEnd_def history_def end_page_def end_writer_time_def
  holds_shared_def holds_write_def

text \<open>
  C8. The claim fails on the code in its second half. \<^verbatim>\<open>sqlite3ServerEnd\<close> adds the
  elapsed time \<open>nUs\<close> to \<^verbatim>\<open>nUsWrite\<close> first and then compares the seconds of the new
  total with the seconds of the new total plus \<open>nUs\<close> once more, not with those of the
  total before the addition. With 0.9 s so far and 0.2 s elapsed the total crosses one
  second (1.1 s) and nothing is logged; with nothing so far and 0.6 s elapsed the total
  (0.6 s) crosses no second and a notice is logged.
\<close>

theorem end_writer_time_log_at_failing_inputs:
  "sqlite3ServerEnd env0 (Suc 0) state_writer =
     Some (SQLITE_OK, state_writer\<lparr>tick := 4, aMap := (aMap state_writer)(17 := 0),
             nUsWrite := 1100000, nLock := 0\<rparr>)
   \<and> nUsWrite state_writer sdiv 1000000 = 0 \<and> (1100000::int) sdiv 1000000 = 1
   \<and> logs state_writer = []
   \<and> sqlite3ServerEnd env0 (Suc 0) state_writer2 =
     Some (SQLITE_OK, state_writer2\<lparr>tick := 4, aMap := (aMap state_writer2)(17 := 0),
             nUsWrite := 600000, nLock := 0, logs := [Log_writer_time 600]\<rparr>)
   \<and> nUsWrite state_writer2 sdiv 1000000 = 0 \<and> (600000::int) sdiv 1000000 = 0"
  by (simp add: end_defs model_defs world_defs Let_def signed_divide_int_def)


subsection \<open>The lock-history after a request\<close>

lemma end_pages_append:
  "end_pages E k (ps @ qs) s =
     (case end_pages E k ps s of None \<Rightarrow> None | Some s1 \<Rightarrow> end_pages E k qs s1)"
  by (induction ps arbitrary: s) (auto split: option.splits)

lemma history_writer_start [simp]:
  "nLock (writer_start E pgno s) = nLock s" "aLock (writer_start E pgno s) = aLock s"
  by (simp_all add: writer_start_def Let_def split: prod.splits)

lemma grow_aLock_history:
  "nLock (snd (grow_aLock E s)) = nLock s" "aLock (snd (grow_aLock E s)) = aLock s"
  "iClient (snd (grow_aLock E s)) = iClient s" "aMap (snd (grow_aLock E s)) = aMap s"
  "aClient (snd (grow_aLock E s)) = aClient s" "fd (snd (grow_aLock E s)) = fd s"
  by (simp_all add: grow_aLock_def Let_def)

lemma history_append:
  "nLock s' = Suc (nLock s) \<Longrightarrow> aLock s' = (aLock s)(nLock s := pgno) \<Longrightarrow>
   history s' = history s @ [pgno]"
  by (simp add: history_def)

lemma lock_slow_path:
  assumes "fst (grow_aLock E s) = SQLITE_OK"
      and "\<not> already_held bWrite (iClient s)
             (fst (load E (serverPageLockSlot pgno) (snd (grow_aLock E s))))"
      and "sqlite3ServerLock E k pgno bWrite bBlock s = Some (rc, s')"
  shows "nLock s' = Suc (nLock s) \<and> aLock s' = (aLock s)(nLock s := pgno)"
proof -
  obtain s0 where g: "grow_aLock E s = (SQLITE_OK, s0)"
    using assms(1) by (cases "grow_aLock E s") auto
  obtain v s1 where l: "load E (serverPageLockSlot pgno) s0 = (v, s1)"
    by (cases "load E (serverPageLockSlot pgno) s0")
  have p1: "priv s1 = priv s0" using l by (rule priv_load_eq)
  have s0: "nLock s0 = nLock s" "aLock s0 = aLock s" "iClient s0 = iClient s"
    using grow_aLock_history [of E s] g by simp_all
  have nh: "\<not> already_held bWrite (iClient s1) v"
    using assms(2) g l s0 priv_fields(1) [OF p1] by simp
  let ?s1 = "s1\<lparr>aLock := (aLock s1)(nLock s1 := pgno), nLock := Suc (nLock s1)\<rparr>"
  from assms(3) g l nh obtain rc1 bR s2 where
    a: "lock_acquire E k pgno bWrite bBlock v False ?s1 = Some (rc1, bR, s2)"
    and out: "server_lock_out E k pgno rc1 bR s2 = Some (rc, s')"
    by (auto simp: sqlite3ServerLock_def Let_def split: option.splits)
  have p2: "priv s2 = priv ?s1" using a by (rule priv_lock_acquire)
  from server_lock_out_result [OF out] obtain s3 where
    p3: "priv s3 = priv s2" and s': "s' = writer_start E pgno s3" by blast
  have "nLock s3 = Suc (nLock s1)" "aLock s3 = (aLock s1)(nLock s1 := pgno)"
    using priv_fields(4,5) [OF p3] priv_fields(4,5) [OF p2] by simp_all
  then show ?thesis using s' s0 priv_fields(4,5) [OF p1] by simp
qed

lemma lock_local_deadlock:
  "\<exists>s'. sqlite3ServerLock env0 (Suc (Suc 0)) 0 True False state_peer
          = Some (SQLITE_BUSY_DEADLOCK, s')"
  by (simp add: model_defs world_defs Let_def overcome_scan.simps)

subsection \<open>A conflict with a local peer\<close>

text \<open>Along the rounds of a loop the value of the loop function stays the same.\<close>

lemma local_conflict_round:
  assumes "aClient s (blocker (iClient s) v)" "conflict bWrite (iClient s) v"
  shows "lock_conflicts E (Suc k) pgno bWrite False v bR s =
           Some (Inl SQLITE_BUSY_DEADLOCK, bR, s\<lparr>logs := logs s @ [Log_conflict pgno]\<rparr>)"
    and "lock_acquire E (Suc k) pgno bWrite False v bR s =
           Some (SQLITE_BUSY_DEADLOCK, bR, s\<lparr>logs := logs s @ [Log_conflict pgno]\<rparr>)"
proof -
  have "serverOvercomeLock E k bWrite False v s = Some (SQLITE_OK, False, s)"
    using assms(1) by (simp add: serverOvercomeLock_def Let_def)
  then show c: "lock_conflicts E (Suc k) pgno bWrite False v bR s =
           Some (Inl SQLITE_BUSY_DEADLOCK, bR, s\<lparr>logs := logs s @ [Log_conflict pgno]\<rparr>)"
    using assms(2) by (simp add: try_reserved_def)
  show "lock_acquire E (Suc k) pgno bWrite False v bR s =
           Some (SQLITE_BUSY_DEADLOCK, bR, s\<lparr>logs := logs s @ [Log_conflict pgno]\<rparr>)"
    using c by (simp del: lock_conflicts.simps)
qed

lemma inner_round_same:
  assumes "inner_round E pgno bWrite bBlock c c'"
  shows "(case c of (k, v, bR, s) \<Rightarrow> lock_conflicts E k pgno bWrite bBlock v bR s) =
         (case c' of (k, v, bR, s) \<Rightarrow> lock_conflicts E k pgno bWrite bBlock v bR s)"
  using assms by cases simp_all

lemma inner_rounds_same:
  assumes "(inner_round E pgno bWrite bBlock)\<^sup>*\<^sup>* c c'"
  shows "(case c of (k, v, bR, s) \<Rightarrow> lock_conflicts E k pgno bWrite bBlock v bR s) =
         (case c' of (k, v, bR, s) \<Rightarrow> lock_conflicts E k pgno bWrite bBlock v bR s)"
  using assms by (induction rule: rtranclp_induct) (simp_all add: inner_round_same)

lemma outer_round_same:
  assumes "outer_round E pgno bWrite bBlock c c'"
  shows "(case c of (k, v, bR, s) \<Rightarrow> lock_acquire E k pgno bWrite bBlock v bR s) =
         (case c' of (k, v, bR, s) \<Rightarrow> lock_acquire E k pgno bWrite bBlock v bR s)"
  using assms by cases (simp add: Let_def del: lock_conflicts.simps)

lemma outer_rounds_same:
  assumes "(outer_round E pgno bWrite bBlock)\<^sup>*\<^sup>* c c'"
  shows "(case c of (k, v, bR, s) \<Rightarrow> lock_acquire E k pgno bWrite bBlock v bR s) =
         (case c' of (k, v, bR, s) \<Rightarrow> lock_acquire E k pgno bWrite bBlock v bR s)"
  using assms by (induction rule: rtranclp_induct) (simp_all add: outer_round_same)

text \<open>A request that does not block never sets \<open>bReserved\<close>.\<close>

lemma try_reserved_nonblocking:
  "try_reserved E p bWrite False v bR s = (False, v, bR, s)"
  by (simp add: try_reserved_def)

lemma lock_conflicts_nonblocking:
  "lock_conflicts E k pgno bWrite False v bR s = Some (r, bR', s') \<Longrightarrow> bR' = bR"
proof (induction k arbitrary: v s)
  case 0
  then show ?case by simp
next
  case (Suc k)
  show ?case
  proof (cases "conflict bWrite (iClient s) v")
    case False
    then show ?thesis using Suc.prems by auto
  next
    case True
    then obtain rc bRetry s2 where
      o: "serverOvercomeLock E k bWrite False v s = Some (rc, bRetry, s2)"
      using Suc.prems by (auto simp: try_reserved_nonblocking split: option.splits)
    show ?thesis
    proof (cases "rc = SQLITE_OK \<and> bRetry")
      case False
      then show ?thesis
        using Suc.prems True o by (auto simp: try_reserved_nonblocking split: if_splits)
    next
      case retry: True
      obtain v2 s3 where l: "load E (serverPageLockSlot pgno) s2 = (v2, s3)"
        by (cases "load E (serverPageLockSlot pgno) s2")
      have "lock_conflicts E k pgno bWrite False v2 bR s3 = Some (r, bR', s')"
        using Suc.prems True o retry l by (simp add: try_reserved_nonblocking)
      then show ?thesis by (rule Suc.IH)
    qed
  qed
qed

lemma inner_rounds_nonblocking:
  assumes "(inner_round E pgno bWrite False)\<^sup>*\<^sup>* c c'"
  shows "fst (snd (snd c')) = fst (snd (snd c))"
  using assms
proof (induction rule: rtranclp_induct)
  case base
  then show ?case by simp
next
  case (step y z)
  from step.hyps(2) have "fst (snd (snd z)) = fst (snd (snd y))"
    by cases (simp_all add: try_reserved_nonblocking)
  then show ?case using step.IH by simp
qed

lemma outer_rounds_nonblocking:
  assumes "(outer_round E pgno bWrite False)\<^sup>*\<^sup>* c c'"
  shows "fst (snd (snd c')) = fst (snd (snd c))"
  using assms
proof (induction rule: rtranclp_induct)
  case base
  then show ?case by simp
next
  case (step y z)
  from step.hyps(2) have "fst (snd (snd z)) = fst (snd (snd y))"
    by cases (auto dest: lock_conflicts_nonblocking simp del: lock_conflicts.simps)
  then show ?case using step.IH by simp
qed

lemma local_conflict_in_some_round:
  assumes "aClient s (blocker (iClient s) v)" "conflict bWrite (iClient s) v"
      and "fst (grow_aLock E s0) = SQLITE_OK"
      and "load E (serverPageLockSlot pgno) (snd (grow_aLock E s0)) = (v0, s1)"
      and "\<not> already_held bWrite (iClient s1) v0"
      and "(outer_round E pgno bWrite False)\<^sup>*\<^sup>*
             (k0, v0, False, s1\<lparr>aLock := (aLock s1)(nLock s1 := pgno), nLock := Suc (nLock s1)\<rparr>)
             (kc, vc, bc, sc)"
      and "(inner_round E pgno bWrite False)\<^sup>*\<^sup>* (kc, vc, bc, sc) (Suc k, v, bR, s)"
  shows "\<exists>s'. sqlite3ServerLock E k0 pgno bWrite False s0 = Some (SQLITE_BUSY_DEADLOCK, s')"
proof -
  let ?s1 = "s1\<lparr>aLock := (aLock s1)(nLock s1 := pgno), nLock := Suc (nLock s1)\<rparr>"
  let ?s' = "s\<lparr>logs := logs s @ [Log_conflict pgno]\<rparr>"
  have bc: "bc = False" using outer_rounds_nonblocking [OF assms(6)] by simp
  have bR: "bR = False" using inner_rounds_nonblocking [OF assms(7)] bc by simp
  have c: "lock_conflicts E kc pgno bWrite False vc bc sc = Some (Inl SQLITE_BUSY_DEADLOCK, bR, ?s')"
    using inner_rounds_same [OF assms(7)] local_conflict_round(1) [OF assms(1,2)]
    by (simp del: lock_conflicts.simps)
  then obtain kc' where kc: "kc = Suc kc'" by (cases kc) auto
  have "lock_acquire E kc pgno bWrite False vc bc sc = Some (SQLITE_BUSY_DEADLOCK, bR, ?s')"
    using c unfolding kc by (simp del: lock_conflicts.simps)
  then have a: "lock_acquire E k0 pgno bWrite False v0 False ?s1
      = Some (SQLITE_BUSY_DEADLOCK, False, ?s')"
    using outer_rounds_same [OF assms(6)] bR by (simp del: lock_acquire.simps)
  obtain s0' where g: "grow_aLock E s0 = (SQLITE_OK, s0')"
    using assms(3) by (cases "grow_aLock E s0") auto
  have "sqlite3ServerLock E k0 pgno bWrite False s0
      = server_lock_out E k0 pgno SQLITE_BUSY_DEADLOCK False ?s'"
    using g assms(4,5) a by (simp add: sqlite3ServerLock_def Let_def del: lock_acquire.simps)
  then show ?thesis by (simp add: server_lock_out_def)
qed

text \<open>The case in which the conflict is in the word read first.\<close>

lemma local_conflict_first_round:
  assumes "fst (grow_aLock E s) = SQLITE_OK"
      and "v = fst (load E (serverPageLockSlot pgno) (snd (grow_aLock E s)))"
      and "\<not> already_held bWrite (iClient s) v"
      and "conflict bWrite (iClient s) v"
      and "aClient s (blocker (iClient s) v)"
  shows "\<exists>s'. sqlite3ServerLock E (Suc k) pgno bWrite False s = Some (SQLITE_BUSY_DEADLOCK, s')"
proof -
  obtain s0 where g: "grow_aLock E s = (SQLITE_OK, s0)"
    using assms(1) by (cases "grow_aLock E s") auto
  obtain s1 where l: "load E (serverPageLockSlot pgno) s0 = (v, s1)"
    using assms(2) g by (cases "load E (serverPageLockSlot pgno) s0") auto
  have p1: "priv s1 = priv s0" using l by (rule priv_load_eq)
  have s1: "iClient s1 = iClient s" "aClient s1 = aClient s"
    using grow_aLock_history [of E s] g priv_fields(1,3) [OF p1] by simp_all
  let ?s1 = "s1\<lparr>aLock := (aLock s1)(nLock s1 := pgno), nLock := Suc (nLock s1)\<rparr>"
  have "aClient ?s1 (blocker (iClient ?s1) v)" "conflict bWrite (iClient ?s1) v"
    using assms(4,5) s1 by simp_all
  then show ?thesis
    using local_conflict_in_some_round [of ?s1 v bWrite E s pgno v s1 "Suc k" "Suc k" v False ?s1 k False]
      assms(1,3) g l s1 by simp
qed

text \<open>
  C7. Take any round of the inner loop of \<^verbatim>\<open>sqlite3ServerLock\<close>: the word \<open>v\<close> at the head
  of the round conflicts with the request, and the blocker chosen from it has a non-null
  \<^verbatim>\<open>aClient\<close> entry. Then \<^verbatim>\<open>serverOvercomeLock\<close> returns OK with the retry flag unset and
  without touching the state, and for a non-blocking request both loops end in that
  round with BUSY_DEADLOCK, after the conflict is logged. So \<^verbatim>\<open>sqlite3ServerLock\<close>
  returns BUSY_DEADLOCK for every non-blocking request on the slow path that comes to
  such a round, whether the word is the one read first, one read again after
  \<^verbatim>\<open>serverOvercomeLock\<close> asked for a retry, or one read again after a lost
  compare-and-swap; the bound on the loops has to reach the round.
\<close>

theorem local_peer_blocks:
  assumes "conflict bWrite (iClient s) v" "aClient s (blocker (iClient s) v)"
  shows "serverOvercomeLock E k bWrite bBlock v s = Some (SQLITE_OK, False, s)
     \<and> lock_conflicts E (Suc k) pgno bWrite False v bR s =
           Some (Inl SQLITE_BUSY_DEADLOCK, bR, s\<lparr>logs := logs s @ [Log_conflict pgno]\<rparr>)
     \<and> lock_acquire E (Suc k) pgno bWrite False v bR s =
           Some (SQLITE_BUSY_DEADLOCK, bR, s\<lparr>logs := logs s @ [Log_conflict pgno]\<rparr>)
     \<and> (\<forall>s0 k0 v0 s1 kc vc bc sc.
           fst (grow_aLock E s0) = SQLITE_OK
           \<and> load E (serverPageLockSlot pgno) (snd (grow_aLock E s0)) = (v0, s1)
           \<and> \<not> already_held bWrite (iClient s1) v0
           \<and> (outer_round E pgno bWrite False)\<^sup>*\<^sup>*
                (k0, v0, False,
                 s1\<lparr>aLock := (aLock s1)(nLock s1 := pgno), nLock := Suc (nLock s1)\<rparr>)
                (kc, vc, bc, sc)
           \<and> (inner_round E pgno bWrite False)\<^sup>*\<^sup>* (kc, vc, bc, sc) (Suc k, v, bR, s)
           \<longrightarrow> (\<exists>s'. sqlite3ServerLock E k0 pgno bWrite False s0
                       = Some (SQLITE_BUSY_DEADLOCK, s')))"
proof -
  have "serverOvercomeLock E k bWrite bBlock v s = Some (SQLITE_OK, False, s)"
    using assms(2) by (simp add: serverOvercomeLock_def Let_def)
  moreover note local_conflict_round [OF assms(2,1), of E k pgno bR]
  moreover have "\<exists>s'. sqlite3ServerLock E k0 pgno bWrite False s0
        = Some (SQLITE_BUSY_DEADLOCK, s')"
    if "fst (grow_aLock E s0) = SQLITE_OK
        \<and> load E (serverPageLockSlot pgno) (snd (grow_aLock E s0)) = (v0, s1)
        \<and> \<not> already_held bWrite (iClient s1) v0
        \<and> (outer_round E pgno bWrite False)\<^sup>*\<^sup>*
             (k0, v0, False,
              s1\<lparr>aLock := (aLock s1)(nLock s1 := pgno), nLock := Suc (nLock s1)\<rparr>)
             (kc, vc, bc, sc)
        \<and> (inner_round E pgno bWrite False)\<^sup>*\<^sup>* (kc, vc, bc, sc) (Suc k, v, bR, s)"
    for s0 k0 v0 s1 kc vc bc sc
    using that local_conflict_in_some_round [OF assms(2,1), of E s0 pgno v0 s1 k0 kc vc bc sc k bR]
    by (elim conjE) simp
  ultimately show ?thesis by (intro conjI allI impI)
qed

lemmas round_defs = env_late_reader_def state_peer_idle_def

text \<open>
  Two requests of client 0 for a write lock on page 0, next to the local client 1. In
  the first the word read first shows the reader bit of client 1. In the second the word
  read first is free, client 1 takes SHARED before the compare-and-swap that installs
  the lock, which is lost, and the conflict is in the word read after it.
\<close>

theorem local_peer_blocks_witness:
  "serverOvercomeLock env0 (Suc 0) True False 2 state_peer = Some (SQLITE_OK, False, state_peer)
   \<and> fst (the (sqlite3ServerLock env0 (Suc (Suc 0)) 0 True False state_peer)) = SQLITE_BUSY_DEADLOCK
   \<and> fst (the (sqlite3ServerLock env_late_reader (Suc (Suc 0)) 0 True False state_peer_idle))
       = SQLITE_BUSY_DEADLOCK"
proof -
  have a1: "conflict True (iClient state_peer) 2"
    by (simp add: model_defs world_defs Let_def)
  have a2: "aClient state_peer (blocker (iClient state_peer) 2)"
    by (simp add: model_defs world_defs Let_def overcome_scan.simps)
  have o: "serverOvercomeLock env0 (Suc 0) True False 2 state_peer
      = Some (SQLITE_OK, False, state_peer)"
    using local_peer_blocks [OF a1 a2, of env0 "Suc 0" False] by blast
  let ?t1 = "state_peer\<lparr>tick := 2, nAlloc := 128\<rparr>"
  let ?t1' = "?t1\<lparr>aLock := (aLock ?t1)(nLock ?t1 := 0), nLock := Suc (nLock ?t1)\<rparr>"
  have g0: "fst (grow_aLock env0 state_peer) = SQLITE_OK"
    by (simp add: model_defs world_defs Let_def)
  have l0: "load env0 (serverPageLockSlot 0) (snd (grow_aLock env0 state_peer)) = (2, ?t1)"
    by (simp add: model_defs world_defs Let_def)
  have nh0: "\<not> already_held True (iClient ?t1) 2"
    by (simp add: model_defs world_defs Let_def)
  have c1: "conflict True (iClient ?t1') 2"
    by (simp add: model_defs world_defs Let_def)
  have c2: "aClient ?t1' (blocker (iClient ?t1') 2)"
    by (simp add: model_defs world_defs Let_def overcome_scan.simps)
  have "\<exists>s'. sqlite3ServerLock env0 (Suc (Suc 0)) 0 True False state_peer
      = Some (SQLITE_BUSY_DEADLOCK, s')"
    using local_peer_blocks [OF c1 c2, of env0 "Suc 0" False 0 False] g0 l0 nh0 by blast
  then have e1: "fst (the (sqlite3ServerLock env0 (Suc (Suc 0)) 0 True False state_peer))
      = SQLITE_BUSY_DEADLOCK"
    by auto
  let ?s1 = "state_peer_idle\<lparr>tick := 2, nAlloc := 128\<rparr>"
  let ?s1' = "?s1\<lparr>aLock := (aLock ?s1)(nLock ?s1 := 0), nLock := Suc (nLock ?s1)\<rparr>"
  let ?s2 = "?s1'\<lparr>aMap := (aMap ?s1')(17 := 2), tick := 3\<rparr>"
  let ?s3 = "?s2\<lparr>tick := 4\<rparr>"
  have g: "fst (grow_aLock env_late_reader state_peer_idle) = SQLITE_OK"
    by (simp add: model_defs world_defs round_defs Let_def)
  have l: "load env_late_reader (serverPageLockSlot 0)
      (snd (grow_aLock env_late_reader state_peer_idle)) = (0, ?s1)"
    by (simp add: model_defs world_defs round_defs Let_def)
  have nh: "\<not> already_held True (iClient ?s1) 0"
    by (simp add: model_defs world_defs round_defs Let_def)
  have c: "lock_conflicts env_late_reader (Suc (Suc 0)) 0 True False 0 False ?s1'
      = Some (Inr 0, False, ?s1')"
    by (simp add: model_defs world_defs round_defs Let_def)
  have x: "cas env_late_reader (serverPageLockSlot 0) 0
       (let n = 0 OR reader_bit (iClient ?s1')
        in if True then n OR writer_bits (iClient ?s1') else n) ?s1' = (2, ?s2)"
    by (simp add: model_defs world_defs round_defs Let_def)
  have l2: "load env_late_reader (serverPageLockSlot 0) ?s2 = (2, ?s3)"
    by (simp add: model_defs world_defs round_defs Let_def)
  have "outer_round env_late_reader 0 True False
      (Suc (Suc 0), 0, False, ?s1') (Suc 0, 2, False, ?s3)"
    using c x _ l2 by (rule outer_round.cas_lost) simp
  then have r: "(outer_round env_late_reader 0 True False)\<^sup>*\<^sup>*
      (Suc (Suc 0), 0, False, ?s1') (Suc 0, 2, False, ?s3)"
    by (rule r_into_rtranclp)
  have b1: "conflict True (iClient ?s3) 2"
    by (simp add: model_defs world_defs round_defs Let_def)
  have b2: "aClient ?s3 (blocker (iClient ?s3) 2)"
    by (simp add: model_defs world_defs round_defs Let_def overcome_scan.simps)
  have "\<exists>s'. sqlite3ServerLock env_late_reader (Suc (Suc 0)) 0 True False state_peer_idle
      = Some (SQLITE_BUSY_DEADLOCK, s')"
    using local_peer_blocks [OF b1 b2, of env_late_reader 0 False 0 False] g l nh r by blast
  then have e2: "fst (the (sqlite3ServerLock env_late_reader (Suc (Suc 0)) 0 True False
      state_peer_idle)) = SQLITE_BUSY_DEADLOCK"
    by auto
  show ?thesis using o e1 e2 by (simp only: simp_thms)
qed

subsection \<open>The bits of a page-lock word\<close>

lemma word_bit_nonzero: "bit (w :: u32) n \<Longrightarrow> w \<noteq> 0"
  by auto

lemma u32_bit_bound: "bit (w :: u32) n \<Longrightarrow> n < 32"
  using bit_imp_le_length [of w n] by simp

lemma holds_shared_bit:
  "holds_shared i v \<longleftrightarrow> bit v (nat i)"
proof -
  have "v AND push_bit (nat i) 1 \<noteq> 0 \<longleftrightarrow> bit v (nat i)"
  proof
    assume "v AND push_bit (nat i) 1 \<noteq> 0"
    then obtain n where "bit (v AND push_bit (nat i) 1) n"
      by (auto simp: bit_eq_iff)
    then show "bit v (nat i)" by (auto simp: bit_simps)
  next
    assume b: "bit v (nat i)"
    then have "nat i < 32" by (rule u32_bit_bound)
    then have "bit (v AND push_bit (nat i) 1) (nat i)" using b by (simp add: bit_simps)
    then show "v AND push_bit (nat i) 1 \<noteq> 0" by (rule word_bit_nonzero)
  qed
  then show ?thesis by (simp add: holds_shared_def reader_bit_def)
qed

lemma bit_write_field: "bit (write_field v) n \<longleftrightarrow> bit v (n + 16)"
  by (auto simp: write_field_def bit_simps add.commute)

lemma bit_reader_bit: "bit (reader_bit i) n \<longleftrightarrow> n = nat i \<and> n < 32"
  by (auto simp: reader_bit_def bit_simps)

lemma bit_reader_mask: "bit reader_mask n \<longleftrightarrow> n < 16"
proof -
  have "reader_mask = mask 16" by (simp add: reader_mask_def mask_eq_exp_minus_1)
  show ?thesis unfolding \<open>reader_mask = mask 16\<close> by (auto simp: bit_mask_iff)
qed

lemma client_word_uint:
  assumes "0 \<le> i" "i < 16"
  shows "uint (word_of_int (i + 1) :: u32) = i + 1"
proof -
  have "take_bit 32 (i + 1) = i + 1"
    using assms by (intro take_bit_int_eq_self) auto
  moreover have "uint (word_of_int (i + 1) :: u32) = take_bit 32 (i + 1)"
    by (simp only: uint_word_of_int_eq) simp
  ultimately show ?thesis by (simp only:)
qed


lemma client_word:
  assumes "0 \<le> i" "i < 16"
  shows "(word_of_int (i + 1) :: u32) \<noteq> 0" "(word_of_int (i + 1) :: u32) \<le> 16"
proof -
  note u = client_word_uint [OF assms]
  show "(word_of_int (i + 1) :: u32) \<noteq> 0"
  proof
    assume "(word_of_int (i + 1) :: u32) = 0"
    then have "uint (word_of_int (i + 1) :: u32) = uint (0 :: u32)" by (simp only:)
    then have "uint (word_of_int (i + 1) :: u32) = 0" by simp
    then show False using u assms by linarith
  qed
  have "uint (word_of_int (i + 1) :: u32) \<le> uint (16 :: u32)" using u assms by (simp only:) simp
  then show "(word_of_int (i + 1) :: u32) \<le> 16" by (simp only: word_le_def)
qed

lemma client_word_inj:
  assumes "0 \<le> i" "i < 16" "0 \<le> b" "b < 16"
  shows "(word_of_int (i + 1) :: u32) = word_of_int (b + 1) \<longleftrightarrow> i = b"
proof
  assume "(word_of_int (i + 1) :: u32) = word_of_int (b + 1)"
  then have "uint (word_of_int (i + 1) :: u32) = uint (word_of_int (b + 1) :: u32)" by (simp only:)
  then show "i = b" using client_word_uint [OF assms(1,2)] client_word_uint [OF assms(3,4)] by linarith
next
  assume "i = b" then show "(word_of_int (i + 1) :: u32) = word_of_int (b + 1)" by (simp only:)
qed

lemma client_word_bits:
  assumes "0 \<le> i" "i < 16" "bit (word_of_int (i + 1) :: u32) n"
  shows "n < 16"
proof -
  have "(word_of_int (i + 1) :: u32) \<le> 16" by (rule client_word(2) [OF assms(1,2)])
  then have "(word_of_int (i + 1) :: u32) < 2 ^ 16" by (rule order_le_less_trans) simp
  then have "take_bit 16 (word_of_int (i + 1) :: u32) = word_of_int (i + 1)"
    by (simp only: less_mask_eq take_bit_eq_mask)
  then have "bit (take_bit 16 (word_of_int (i + 1) :: u32)) n" using assms(3) by (simp only:)
  then show ?thesis by (simp only: bit_take_bit_iff)
qed

lemma writeLocker_eq:
  assumes "0 \<le> i" "i < 16"
  shows "serverWriteLocker v = i \<longleftrightarrow> holds_write i v"
proof -
  have "holds_write i v \<longleftrightarrow> uint (write_field v) = uint (word_of_int (i + 1) :: u32)"
    unfolding holds_write_def by (rule word_uint_eq_iff)
  also have "\<dots> \<longleftrightarrow> uint (write_field v) = i + 1"
    by (simp only: client_word_uint [OF assms])
  also have "\<dots> \<longleftrightarrow> serverWriteLocker v = i"
    unfolding serverWriteLocker_def by linarith
  finally show ?thesis by simp
qed

lemma writeLocker_neg: "serverWriteLocker v < 0 \<longleftrightarrow> write_field v = 0"
proof -
  have "uint (write_field v) < 1 \<longleftrightarrow> uint (write_field v) = 0"
    using uint_ge_0 [of "write_field v"] by linarith
  then show ?thesis by (simp add: serverWriteLocker_def uint_0_iff)
qed

lemma bit_writer_bits:
  "bit (writer_bits i) n \<longleftrightarrow> 16 \<le> n \<and> n < 32 \<and> bit (word_of_int (i + 1) :: u32) (n - 16)"
  unfolding writer_bits_def by (auto simp only: bit_push_bit_iff possible_bit_word len_bit0 len_num1)

lemma write_field_clear_reader:
  "0 \<le> b \<Longrightarrow> b < 16 \<Longrightarrow> write_field (v AND NOT (reader_bit b)) = write_field v"
  by (rule bit_eqI) (auto simp: bit_write_field bit_simps bit_reader_bit dest: u32_bit_bound)

lemma write_field_and_mask: "write_field (v AND reader_mask) = 0"
  by (rule bit_eqI) (auto simp: bit_write_field bit_simps bit_reader_mask)

lemma write_field_set_reader:
  "0 \<le> i \<Longrightarrow> i < 16 \<Longrightarrow> write_field (v OR reader_bit i) = write_field v"
  by (rule bit_eqI) (auto simp: bit_write_field bit_simps bit_reader_bit)

lemma write_field_set_writer:
  assumes "0 \<le> i" "i < 16"
  shows "write_field (v OR writer_bits i) = write_field v OR word_of_int (i + 1)"
proof (rule bit_eqI)
  fix n
  show "bit (write_field (v OR writer_bits i)) n = bit (write_field v OR word_of_int (i + 1)) n"
    using client_word_bits [OF assms, of n]
    by (auto simp only: bit_write_field bit_or_iff bit_writer_bits dest: u32_bit_bound) simp_all
qed

lemma holds_shared_clear_other:
  "0 \<le> b \<Longrightarrow> 0 \<le> i \<Longrightarrow> b \<noteq> i \<Longrightarrow> holds_shared i (v AND NOT (reader_bit b)) = holds_shared i v"
  by (auto simp: holds_shared_bit bit_simps bit_reader_bit dest: u32_bit_bound)

lemma holds_shared_clear_self: "\<not> holds_shared i (v AND NOT (reader_bit i))"
  by (auto simp: holds_shared_bit bit_simps bit_reader_bit dest: u32_bit_bound)

lemma holds_shared_and_mask:
  "0 \<le> i \<Longrightarrow> i < 16 \<Longrightarrow> holds_shared i (v AND reader_mask) = holds_shared i v"
  by (auto simp: holds_shared_bit bit_simps bit_reader_mask)

lemma holds_shared_set_self:
  "0 \<le> i \<Longrightarrow> i < 32 \<Longrightarrow> holds_shared i (v OR reader_bit i)"
  by (auto simp: holds_shared_bit bit_simps bit_reader_bit)

lemma holds_shared_set_other:
  "0 \<le> i \<Longrightarrow> 0 \<le> j \<Longrightarrow> i \<noteq> j \<Longrightarrow> holds_shared i (v OR reader_bit j) = holds_shared i v"
  by (auto simp: holds_shared_bit bit_simps bit_reader_bit)

lemma holds_shared_set_writer:
  "0 \<le> i \<Longrightarrow> i < 16 \<Longrightarrow> holds_shared i (v OR writer_bits j) = holds_shared i v"
  by (auto simp: holds_shared_bit bit_or_iff bit_writer_bits)

subsection \<open>A granted request is held\<close>

lemma page_slot_is_page_slot: "is_page_slot (serverPageLockSlot pgno)"
  by (simp add: is_page_slot_def serverPageLockSlot_def HMA_CLIENT_SLOTS_def HMA_PAGELOCK_SLOTS_def)

lemma cas_cases:
  assumes "cas E p v n s = (old, s')"
  obtains (swapped) "old = v" "aMap (peers_step E s) p = v"
      "s' = (peers_step E s)\<lparr>aMap := (aMap (peers_step E s))(p := n)\<rparr>"
    | (failed) "old \<noteq> v" "s' = peers_step E s"
  using assms by (auto simp: cas_def Let_def split: if_splits)

lemma load_eq: "load E p s = (v, s') \<Longrightarrow> s' = peers_step E s \<and> v = aMap s' p"
  by (auto simp: load_def Let_def)

lemma lock_conflicts_exit:
  "lock_conflicts E k pgno bWrite bBlock v bR s = Some (r, bR', s') \<Longrightarrow>
   (case r of Inl rc \<Rightarrow> rc \<noteq> SQLITE_OK | Inr v' \<Rightarrow> \<not> conflict bWrite (iClient s) v')"
proof (induction k arbitrary: v bR s)
  case 0
  then show ?case by simp
next
  case (Suc k)
  show ?case
  proof (cases "conflict bWrite (iClient s) v")
    case False
    then show ?thesis using Suc.prems by auto
  next
    case True
    obtain c v1 bR1 s1 where
      t: "try_reserved E (serverPageLockSlot pgno) bWrite bBlock v bR s = (c, v1, bR1, s1)"
      by (cases "try_reserved E (serverPageLockSlot pgno) bWrite bBlock v bR s") auto
    have i1: "iClient s1 = iClient s" using priv_fields(1) [OF priv_try_reserved [OF t]] .
    show ?thesis
    proof (cases c)
      case True
      then have "lock_conflicts E k pgno bWrite bBlock v1 bR1 s1 = Some (r, bR', s')"
        using Suc.prems \<open>conflict bWrite (iClient s) v\<close> t by simp
      then show ?thesis using Suc.IH i1 by metis
    next
      case False
      then obtain rc bRetry s2 where
        o: "serverOvercomeLock E k bWrite bBlock v1 s1 = Some (rc, bRetry, s2)"
        using Suc.prems \<open>conflict bWrite (iClient s) v\<close> t
        by (auto split: option.splits)
      have i2: "iClient s2 = iClient s"
        using priv_fields(1) [OF priv_serverOvercomeLock [OF o]] i1 by simp
      show ?thesis
      proof (cases "rc = SQLITE_OK \<and> bRetry")
        case False
        then show ?thesis
          using Suc.prems \<open>conflict bWrite (iClient s) v\<close> t \<open>\<not> c\<close> o
          by (auto split: if_splits)
      next
        case True
        obtain v2 s3 where l: "load E (serverPageLockSlot pgno) s2 = (v2, s3)"
          by (cases "load E (serverPageLockSlot pgno) s2")
        have i3: "iClient s3 = iClient s" using priv_fields(1) [OF priv_load_eq [OF l]] i2 by simp
        have "lock_conflicts E k pgno bWrite bBlock v2 bR1 s3 = Some (r, bR', s')"
          using Suc.prems \<open>conflict bWrite (iClient s) v\<close> t \<open>\<not> c\<close> o True l by simp
        then show ?thesis using Suc.IH i3 by metis
      qed
    qed
  qed
qed

lemma no_conflict_write_field:
  assumes "0 \<le> i" "i < 16" "\<not> conflict bWrite i v"
  shows "write_field v = 0 \<or> write_field v = word_of_int (i + 1)"
  using assms writeLocker_eq [of i v] writeLocker_neg [of v]
  by (auto simp: conflict_def Let_def holds_write_def)

lemma installed_word:
  assumes "0 \<le> i" "i < 16" "\<not> conflict bWrite i v"
  shows "holds_shared i (let n = v OR reader_bit i in if bWrite then n OR writer_bits i else n)"
    and "bWrite \<Longrightarrow>
         holds_write i (let n = v OR reader_bit i in if bWrite then n OR writer_bits i else n)"
proof -
  show "holds_shared i (let n = v OR reader_bit i in if bWrite then n OR writer_bits i else n)"
    using assms(1,2) by (simp add: Let_def holds_shared_set_self holds_shared_set_writer)
  assume bWrite
  have "write_field ((v OR reader_bit i) OR writer_bits i) = write_field v OR word_of_int (i + 1)"
    by (simp only: write_field_set_writer [OF assms(1,2)] write_field_set_reader [OF assms(1,2)])
  moreover have "write_field v OR word_of_int (i + 1) = (word_of_int (i + 1) :: u32)"
    using no_conflict_write_field [OF assms] by (auto simp only: or.left_neutral or.idem)
  ultimately show "holds_write i (let n = v OR reader_bit i in if bWrite then n OR writer_bits i else n)"
    using \<open>bWrite\<close> by (simp only: holds_write_def Let_def if_True)
qed

lemma lock_acquire_ok:
  assumes "lock_acquire E k pgno bWrite bBlock v bR s = Some (SQLITE_OK, bR', s')"
      and "0 \<le> iClient s" "iClient s < 16"
  shows "holds_shared (iClient s) (aMap s' (serverPageLockSlot pgno))
     \<and> (bWrite \<longrightarrow> holds_write (iClient s) (aMap s' (serverPageLockSlot pgno)))"
  using assms
proof (induction k arbitrary: v bR s)
  case 0
  then show ?case by simp
next
  case (Suc k)
  from Suc.prems(1) obtain r bR1 s1 where
    c: "lock_conflicts E (Suc k) pgno bWrite bBlock v bR s = Some (r, bR1, s1)"
    by (auto simp del: lock_conflicts.simps split: option.splits)
  have i1: "iClient s1 = iClient s" using priv_fields(1) [OF priv_lock_conflicts [OF c]] .
  show ?case
  proof (cases r)
    case (Inl rc')
    then have "rc' \<noteq> SQLITE_OK" using lock_conflicts_exit [OF c] by simp
    then show ?thesis using Suc.prems(1) c Inl by (simp del: lock_conflicts.simps)
  next
    case (Inr v1)
    then have nc: "\<not> conflict bWrite (iClient s) v1" using lock_conflicts_exit [OF c] by simp
    let ?n = "let n = v1 OR reader_bit (iClient s1) in if bWrite then n OR writer_bits (iClient s1) else n"
    obtain old s2 where x: "cas E (serverPageLockSlot pgno) v1 ?n s1 = (old, s2)"
      by (cases "cas E (serverPageLockSlot pgno) v1 ?n s1")
    show ?thesis
    proof (cases "old = v1")
      case True
      then have "s' = s2" using Suc.prems(1) c Inr x by (simp del: lock_conflicts.simps add: Let_def)
      moreover have "aMap s2 (serverPageLockSlot pgno) = ?n"
        using x True by (auto elim!: cas_cases)
      ultimately show ?thesis
        using installed_word [OF Suc.prems(2,3) nc] i1 by (simp only:) simp
    next
      case False
      obtain v2 s3 where l: "load E (serverPageLockSlot pgno) s2 = (v2, s3)"
        by (cases "load E (serverPageLockSlot pgno) s2")
      have i3: "iClient s3 = iClient s"
        using priv_fields(1) [OF priv_load_eq [OF l]] priv_fields(1) [OF priv_cas_eq [OF x]] i1
        by simp
      have "lock_acquire E k pgno bWrite bBlock v2 bR1 s3 = Some (SQLITE_OK, bR', s')"
        using Suc.prems(1) c Inr x False l by (simp del: lock_conflicts.simps add: Let_def)
      then show ?thesis using Suc.IH [of v2 bR1 s3] i3 Suc.prems(2,3) by simp
    qed
  qed
qed


lemma hasLock_iff:
  "sqlite3ServerHasLock s pgno bWrite \<longleftrightarrow>
     (if bWrite then holds_write (iClient s) (aMap s (serverPageLockSlot pgno))
      else holds_shared (iClient s) (aMap s (serverPageLockSlot pgno)))"
  by (simp add: sqlite3ServerHasLock_def holds_write_def holds_shared_def Let_def)

lemma already_held_iff:
  assumes "0 \<le> i" "i < 16"
  shows "already_held bWrite i v \<longleftrightarrow> (if bWrite then holds_write i v else holds_shared i v)"
  using writeLocker_eq [OF assms, of v] by (simp add: already_held_def holds_shared_def)

lemma writer_start_frame [simp]:
  "aMap (writer_start E pgno s) = aMap s" "iClient (writer_start E pgno s) = iClient s"
  "logs (writer_start E pgno s) = logs s"
  by (simp_all add: writer_start_def Let_def split: prod.splits)

lemma server_lock_out_ok:
  "server_lock_out E k pgno SQLITE_OK bR s = Some (SQLITE_OK, writer_start E pgno s)"
  by (simp add: server_lock_out_def)

lemma server_lock_out_rc: "server_lock_out E k pgno rc bR s = Some (rc', s') \<Longrightarrow> rc' = rc"
  by (auto simp: server_lock_out_def split: option.splits)

lemma lock_ok_has_lock:
  assumes "sqlite3ServerLock E k pgno bWrite bBlock s = Some (SQLITE_OK, s')"
      and "0 \<le> iClient s" "iClient s < 16"
  shows "sqlite3ServerHasLock s' pgno bWrite \<and> iClient s' = iClient s"
proof -
  obtain rc0 s0 where g: "grow_aLock E s = (rc0, s0)" by (cases "grow_aLock E s")
  have rc0: "rc0 = SQLITE_OK"
  proof (rule ccontr)
    assume "rc0 \<noteq> SQLITE_OK"
    then have "server_lock_out E k pgno rc0 False s0 = Some (SQLITE_OK, s')"
      using assms(1) g by (simp add: sqlite3ServerLock_def Let_def)
    then show False using server_lock_out_rc \<open>rc0 \<noteq> SQLITE_OK\<close> by blast
  qed
  obtain v s1 where l: "load E (serverPageLockSlot pgno) s0 = (v, s1)"
    by (cases "load E (serverPageLockSlot pgno) s0")
  have i1: "iClient s1 = iClient s"
    using priv_fields(1) [OF priv_load_eq [OF l]] grow_aLock_history(3) [of E s] g by simp
  have v: "v = aMap s1 (serverPageLockSlot pgno)" using load_eq [OF l] by simp
  show ?thesis
  proof (cases "already_held bWrite (iClient s1) v")
    case True
    then have "s' = writer_start E pgno s1"
      using assms(1) g rc0 l by (simp add: sqlite3ServerLock_def Let_def server_lock_out_ok)
    then show ?thesis
      using True v i1 already_held_iff [OF assms(2,3), of bWrite v]
      by (auto simp: hasLock_iff split: if_splits)
  next
    case False
    let ?s1 = "s1\<lparr>aLock := (aLock s1)(nLock s1 := pgno), nLock := Suc (nLock s1)\<rparr>"
    from assms(1) g rc0 l False obtain rc1 bR s2 where
      a: "lock_acquire E k pgno bWrite bBlock v False ?s1 = Some (rc1, bR, s2)"
      and out: "server_lock_out E k pgno rc1 bR s2 = Some (SQLITE_OK, s')"
      by (auto simp: sqlite3ServerLock_def Let_def split: option.splits)
    have "rc1 = SQLITE_OK" using server_lock_out_rc [OF out] by simp
    then have s': "s' = writer_start E pgno s2" using out by (simp add: server_lock_out_ok)
    have i2: "iClient s2 = iClient s" using priv_fields(1) [OF priv_lock_acquire [OF a]] i1 by simp
    have "holds_shared (iClient ?s1) (aMap s2 (serverPageLockSlot pgno))
       \<and> (bWrite \<longrightarrow> holds_write (iClient ?s1) (aMap s2 (serverPageLockSlot pgno)))"
      using a \<open>rc1 = SQLITE_OK\<close> assms(2,3) i1 by (intro lock_acquire_ok) auto
    then show ?thesis using s' i1 i2 by (simp add: hasLock_iff)
  qed
qed

subsection \<open>The start of a transaction\<close>

text \<open>
  C2, as amended. For a connection with a client id from 0 to 15,
  \<^verbatim>\<open>sqlite3ServerBegin\<close> asks for the blocking OS writer-lock on the byte of its own
  client slot and, when that succeeds, calls \<^verbatim>\<open>sqlite3ServerLock\<close> for a blocking read
  lock on page 1; otherwise it returns the code of the OS lock. It returns OK exactly when
  both steps do, and the connection then holds SHARED on page 1.
\<close>

theorem begin_locks_page_1:
  assumes "0 \<le> iClient s" "iClient s < 16"
  shows "sqlite3ServerBegin E k s =
           (if fst (posixLock E (fd s) (iClient s + 1) SERVER_WRITE_LOCK True s) = SQLITE_OK
            then sqlite3ServerLock E k 1 False True
                   (snd (posixLock E (fd s) (iClient s + 1) SERVER_WRITE_LOCK True s))
            else Some (posixLock E (fd s) (iClient s + 1) SERVER_WRITE_LOCK True s))
     \<and> (sqlite3ServerBegin E k s = Some (SQLITE_OK, s') \<longleftrightarrow>
          fst (posixLock E (fd s) (iClient s + 1) SERVER_WRITE_LOCK True s) = SQLITE_OK
          \<and> sqlite3ServerLock E k 1 False True
                   (snd (posixLock E (fd s) (iClient s + 1) SERVER_WRITE_LOCK True s))
              = Some (SQLITE_OK, s'))
     \<and> (sqlite3ServerBegin E k s = Some (SQLITE_OK, s') \<longrightarrow> sqlite3ServerHasLock s' 1 False)"
proof -
  obtain rc s1 where p: "posixLock E (fd s) (iClient s + 1) SERVER_WRITE_LOCK True s = (rc, s1)"
    by (cases "posixLock E (fd s) (iClient s + 1) SERVER_WRITE_LOCK True s")
  have i1: "iClient s1 = iClient s" using posixLock_state [OF p] by simp
  have b: "sqlite3ServerBegin E k s =
      (if rc = SQLITE_OK then sqlite3ServerLock E k 1 False True s1 else Some (rc, s1))"
    using p by (simp add: sqlite3ServerBegin_def)
  have "sqlite3ServerHasLock s' 1 False" if "sqlite3ServerBegin E k s = Some (SQLITE_OK, s')"
  proof -
    have "sqlite3ServerLock E k 1 False True s1 = Some (SQLITE_OK, s')"
      using that b by (auto split: if_splits)
    then show ?thesis using lock_ok_has_lock [of E k 1 False True s1 s'] i1 assms by simp
  qed
  then show ?thesis using b p by auto
qed

lemma begin_fresh:
  "sqlite3ServerBegin env0 (Suc (Suc 0)) state0 =
     Some (SQLITE_OK, state0\<lparr>tick := 4, aMap := (aMap state0)(18 := 1), nAlloc := 128,
             nLock := 1, aLock := (aLock state0)(0 := 1)\<rparr>)"
  by (simp add: sqlite3ServerBegin_def model_defs world_defs Let_def)

theorem begin_locks_page_1_witness:
  "sqlite3ServerHasLock (snd (the (sqlite3ServerBegin env0 (Suc (Suc 0)) state0))) 1 False
   \<and> fst (the (sqlite3ServerBegin env0 (Suc (Suc 0)) state0)) = SQLITE_OK"
proof -
  have h: "0 \<le> iClient state0" "iClient state0 < 16" by (simp_all add: state0_def)
  let ?s' = "state0\<lparr>tick := 4, aMap := (aMap state0)(18 := 1), nAlloc := 128,
             nLock := 1, aLock := (aLock state0)(0 := 1)\<rparr>"
  have "sqlite3ServerBegin env0 (Suc (Suc 0)) state0 = Some (SQLITE_OK, ?s')
      \<longrightarrow> sqlite3ServerHasLock ?s' 1 False"
    using begin_locks_page_1 [OF h, of env0 "Suc (Suc 0)" ?s'] by blast
  then have "sqlite3ServerHasLock ?s' 1 False" using begin_fresh by blast
  then show ?thesis by (simp add: begin_fresh)
qed

text \<open>
  C2, as stated, fails: for a fresh connection with no peers, \<^verbatim>\<open>sqlite3ServerBegin\<close>
  does not behave as the call for page 0 after the OS lock; it returns OK with page 1 as
  the one entry of the lock-history and without the SHARED lock on page 0.
\<close>

theorem begin_locks_page_0_counterexample:
  "sqlite3ServerBegin env0 (Suc (Suc 0)) state0 \<noteq>
     sqlite3ServerLock env0 (Suc (Suc 0)) 0 False True
       (snd (posixLock env0 (fd state0) (iClient state0 + 1) SERVER_WRITE_LOCK True state0))
   \<and> fst (posixLock env0 (fd state0) (iClient state0 + 1) SERVER_WRITE_LOCK True state0) = SQLITE_OK
   \<and> fst (the (sqlite3ServerBegin env0 (Suc (Suc 0)) state0)) = SQLITE_OK
   \<and> history (snd (the (sqlite3ServerBegin env0 (Suc (Suc 0)) state0))) = [1]
   \<and> \<not> sqlite3ServerHasLock (snd (the (sqlite3ServerBegin env0 (Suc (Suc 0)) state0))) 0 False"
proof -
  have "sqlite3ServerLock env0 (Suc (Suc 0)) 0 False True
       (snd (posixLock env0 (fd state0) (iClient state0 + 1) SERVER_WRITE_LOCK True state0)) =
     Some (SQLITE_OK, state0\<lparr>tick := 5, aMap := (aMap state0)(17 := 1), nAlloc := 128,
             nLock := 1, aLock := (aLock state0)(0 := 0), iUsWrite := 1500000\<rparr>)"
    by (simp add: model_defs world_defs Let_def)
  moreover have "state0\<lparr>tick := 5, aMap := (aMap state0)(17 := 1), nAlloc := 128,
             nLock := 1, aLock := (aLock state0)(0 := 0), iUsWrite := 1500000\<rparr> \<noteq>
     state0\<lparr>tick := 4, aMap := (aMap state0)(18 := 1), nAlloc := 128,
             nLock := 1, aLock := (aLock state0)(0 := 1)\<rparr>"
    by (simp add: state0_def)
  ultimately show ?thesis
    by (simp add: begin_fresh) (simp add: model_defs world_defs sqlite3ServerHasLock_def history_def)
qed

subsection \<open>Asking again for a SHARED lock\<close>

lemma rely_peers_step:
  assumes "rely E i"
  shows "keeps i (aMap s) (aMap (peers_step E s))"
    and "wf_map (aMap s) \<Longrightarrow> wf_map (aMap (peers_step E s))"
  using assms by (simp_all add: rely_def peers_step_def)

lemma grow_aLock_rc:
  "fst (grow_aLock E s) = SQLITE_OK \<or> fst (grow_aLock E s) = SQLITE_NOMEM"
  "fst (grow_aLock E s) = SQLITE_NOMEM \<longleftrightarrow>
     nLock s = nAlloc s \<and> \<not> realloc_ok E (tick s) (4 * (if nAlloc s \<noteq> 0 then nAlloc s * 2 else 128))"
  unfolding grow_aLock_def Let_def by (cases "nLock s = nAlloc s"; simp)+

lemma grow_aLock_tick:
  assumes "fst (grow_aLock E s) = SQLITE_NOMEM"
  shows "snd (grow_aLock E s) = s\<lparr>tick := Suc (tick s)\<rparr>"
proof (cases "nLock s = nAlloc s")
  case True
  show ?thesis
  proof (cases "realloc_ok E (tick s) (4 * (if nAlloc s \<noteq> 0 then nAlloc s * 2 else 128))")
    case True
    then show ?thesis using assms \<open>nLock s = nAlloc s\<close> by (simp add: grow_aLock_def Let_def)
  next
    case False
    then show ?thesis using \<open>nLock s = nAlloc s\<close> by (simp add: grow_aLock_def Let_def)
  qed
next
  case False
  then show ?thesis using assms by (simp add: grow_aLock_def Let_def)
qed

lemma history_cong: "nLock s' = nLock s \<Longrightarrow> aLock s' = aLock s \<Longrightarrow> history s' = history s"
  by (simp add: history_def)

text \<open>
  C6, as amended. Let the connection (client id 0 to 15) hold SHARED on the page, by the
  word of its slot or because a read request for the page has just returned OK, and let
  the other connections leave its bits alone. A further read request returns for every
  bound on the loops: OK by the fast path, unless the history buffer is full
  (\<^verbatim>\<open>nLock==nAlloc\<close>) and cannot be grown, in which case it returns NOMEM. In both cases
  the call writes no mapped word (the mapping changes at most by what the other
  connections did before the word was read), the lock-history is as before, and SHARED
  is still held.
\<close>

theorem shared_lock_again:
  assumes "rely E (iClient s)" "0 \<le> iClient s" "iClient s < 16"
      and "sqlite3ServerHasLock s pgno False
           \<or> (\<exists>k0 b0 s0. 0 \<le> iClient s0 \<and> iClient s0 < 16
                \<and> sqlite3ServerLock E k0 pgno False b0 s0 = Some (SQLITE_OK, s))"
  shows "\<exists>s'. sqlite3ServerLock E k pgno False bBlock s = Some (fst (grow_aLock E s), s')
     \<and> (fst (grow_aLock E s) = SQLITE_OK \<or> fst (grow_aLock E s) = SQLITE_NOMEM)
     \<and> (fst (grow_aLock E s) = SQLITE_NOMEM \<longleftrightarrow>
          nLock s = nAlloc s
          \<and> \<not> realloc_ok E (tick s) (4 * (if nAlloc s \<noteq> 0 then nAlloc s * 2 else 128)))
     \<and> history s' = history s
     \<and> aMap s' = (if fst (grow_aLock E s) = SQLITE_OK
                  then peers E (tick (snd (grow_aLock E s))) (aMap s) else aMap s)
     \<and> sqlite3ServerHasLock s' pgno False"
proof -
  have held: "sqlite3ServerHasLock s pgno False"
    using assms(4) lock_ok_has_lock by blast
  then have hs: "holds_shared (iClient s) (aMap s (serverPageLockSlot pgno))"
    by (simp add: hasLock_iff)
  obtain rc0 s0 where g: "grow_aLock E s = (rc0, s0)" by (cases "grow_aLock E s")
  have s0: "nLock s0 = nLock s" "aLock s0 = aLock s" "iClient s0 = iClient s" "aMap s0 = aMap s"
    using grow_aLock_history [of E s] g by simp_all
  show ?thesis
  proof (cases "rc0 = SQLITE_OK")
    case True
    obtain v s1 where l: "load E (serverPageLockSlot pgno) s0 = (v, s1)"
      by (cases "load E (serverPageLockSlot pgno) s0")
    have s1: "s1 = peers_step E s0" "v = aMap s1 (serverPageLockSlot pgno)"
      using load_eq [OF l] by simp_all
    have p1: "priv s1 = priv s0" using l by (rule priv_load_eq)
    have "keeps (iClient s) (aMap s0) (aMap s1)"
      unfolding s1 by (rule rely_peers_step(1) [OF assms(1)])
    then have hv: "holds_shared (iClient s) v"
      using hs s0 s1(2) page_slot_is_page_slot [of pgno] by (simp add: keeps_def)
    then have ah: "already_held False (iClient s1) v"
      using priv_fields(1) [OF p1] s0 by (simp add: already_held_def holds_shared_def)
    have r: "sqlite3ServerLock E k pgno False bBlock s = Some (SQLITE_OK, writer_start E pgno s1)"
      using g True l ah by (simp add: sqlite3ServerLock_def Let_def server_lock_out_ok)
    have "history (writer_start E pgno s1) = history s"
      using priv_fields(4,5) [OF p1] s0 by (intro history_cong) simp_all
    moreover have "aMap (writer_start E pgno s1) = peers E (tick s0) (aMap s)"
      using s1(1) s0 by (simp add: peers_step_def)
    moreover have "sqlite3ServerHasLock (writer_start E pgno s1) pgno False"
      using hv s1(2) priv_fields(1) [OF p1] s0 by (simp add: hasLock_iff)
    ultimately show ?thesis using r g True grow_aLock_rc(2) [of E s]
      by (intro exI [of _ "writer_start E pgno s1"]) simp
  next
    case False
    then have nm: "rc0 = SQLITE_NOMEM" using grow_aLock_rc(1) [of E s] g by simp
    then have s0': "s0 = s\<lparr>tick := Suc (tick s)\<rparr>" using grow_aLock_tick [of E s] g by simp
    have r: "sqlite3ServerLock E k pgno False bBlock s = Some (SQLITE_NOMEM, writer_start E pgno s0)"
      using g nm by (simp add: sqlite3ServerLock_def Let_def server_lock_out_def)
    have "history (writer_start E pgno s0) = history s"
      using s0 by (intro history_cong) simp_all
    moreover have "sqlite3ServerHasLock (writer_start E pgno s0) pgno False"
      using hs s0 by (simp add: hasLock_iff)
    ultimately show ?thesis using r g nm s0 grow_aLock_rc(2) [of E s]
      by (intro exI [of _ "writer_start E pgno s0"]) simp
  qed
qed

lemma rely_env0: "rely env0 i"
  by (simp add: rely_def keeps_def env0_def)

lemma lock_page5_fresh:
  "sqlite3ServerLock env0 (Suc (Suc 0)) 5 False False state0 =
     Some (SQLITE_OK, state0\<lparr>tick := 3, aMap := (aMap state0)(22 := 1), nAlloc := 128,
             nLock := 1, aLock := (aLock state0)(0 := 5)\<rparr>)"
  by (simp add: model_defs world_defs Let_def)

theorem shared_lock_again_witness:
  "fst (the (sqlite3ServerLock env0 (Suc 0) 5 False False
       (snd (the (sqlite3ServerLock env0 (Suc (Suc 0)) 5 False False state0))))) = SQLITE_OK
   \<and> history (snd (the (sqlite3ServerLock env0 (Suc 0) 5 False False
       (snd (the (sqlite3ServerLock env0 (Suc (Suc 0)) 5 False False state0)))))) = [5]
   \<and> aMap (snd (the (sqlite3ServerLock env0 (Suc 0) 5 False False
       (snd (the (sqlite3ServerLock env0 (Suc (Suc 0)) 5 False False state0)))))) =
     aMap (snd (the (sqlite3ServerLock env0 (Suc (Suc 0)) 5 False False state0)))"
proof -
  let ?s1 = "state0\<lparr>tick := 3, aMap := (aMap state0)(22 := 1), nAlloc := 128,
             nLock := 1, aLock := (aLock state0)(0 := 5)\<rparr>"
  have h: "rely env0 (iClient ?s1)" "0 \<le> iClient ?s1" "iClient ?s1 < 16"
    by (simp_all add: rely_env0 state0_def)
  have h4: "sqlite3ServerHasLock ?s1 5 False
           \<or> (\<exists>k0 b0 s0. 0 \<le> iClient s0 \<and> iClient s0 < 16
                \<and> sqlite3ServerLock env0 k0 5 False b0 s0 = Some (SQLITE_OK, ?s1))"
    using lock_page5_fresh by (intro disjI2 exI [of _ "Suc (Suc 0)"] exI [of _ False] exI [of _ state0])
      (simp add: state0_def)
  have g: "grow_aLock env0 ?s1 = (SQLITE_OK, ?s1)"
    by (simp add: grow_aLock_def state0_def)
  obtain s' where "sqlite3ServerLock env0 (Suc 0) 5 False False ?s1 = Some (SQLITE_OK, s')"
    "history s' = history ?s1" "aMap s' = aMap ?s1"
    using shared_lock_again [OF h h4, of "Suc 0" False] g by (auto simp: env0_def)
  moreover have "history ?s1 = [5]" by (simp add: history_def state0_def)
  ultimately show ?thesis by (simp add: lock_page5_fresh)
qed

text \<open>
  C6, as stated, fails: client 0 holds SHARED on page 5 and has 128 pages in a history
  buffer of 128 entries; the allocator refuses to grow the buffer and the read request for
  page 5 returns NOMEM, not OK.
\<close>

theorem shared_lock_again_nomem_counterexample:
  "sqlite3ServerHasLock state_hist128 5 False
   \<and> sqlite3ServerLock env_nomem (Suc 0) 5 False False state_hist128 =
       Some (SQLITE_NOMEM, state_hist128\<lparr>tick := 1\<rparr>)"
  by (simp add: sqlite3ServerHasLock_def model_defs world_defs state_hist128_def Let_def)

subsection \<open>What the steps of a request do to the contributions of its client\<close>

lemma calm_refl: "calm i m m"
  by (simp add: calm_def keeps_def)

lemma calm_trans: "calm i m m1 \<Longrightarrow> calm i m1 m2 \<Longrightarrow> calm i m m2"
  by (simp add: calm_def keeps_def)

lemma calm_peers_step: "rely E i \<Longrightarrow> calm i (aMap s) (aMap (peers_step E s))"
  by (simp add: calm_def rely_peers_step)

lemma wf_map_upd: "wf_map m \<Longrightarrow> write_field n \<le> 16 \<Longrightarrow> wf_map (m(q := n))"
  by (simp add: wf_map_def)

lemma calm_upd:
  assumes "holds_shared i n \<longleftrightarrow> holds_shared i (m q)"
      and "holds_write i n \<longleftrightarrow> holds_write i (m q)"
      and "write_field n \<le> write_field (m q)"
  shows "calm i m (m(q := n))"
proof -
  have "wf_map (m(q := n))" if "wf_map m"
  proof (cases "is_page_slot q")
    case True
    then have "write_field (m q) \<le> 16" using that by (simp add: wf_map_def)
    then have "write_field n \<le> 16" using assms(3) by (rule order_trans [rotated])
    then show ?thesis using that by (rule wf_map_upd [rotated])
  next
    case False
    then show ?thesis using that by (simp add: wf_map_def)
  qed
  then show ?thesis using assms(1,2) by (simp add: calm_def keeps_def)
qed

lemma track_calm: "track i p m0 bR m \<Longrightarrow> calm i m m' \<Longrightarrow> is_page_slot p \<Longrightarrow> track i p m0 bR m'"
  by (simp add: track_def frame_at_def calm_def keeps_def)

lemma frame_calm: "frame_at i p m0 m \<Longrightarrow> calm i m m' \<Longrightarrow> frame_at i p m0 m'"
  by (simp add: frame_at_def calm_def keeps_def)

lemma track_start: "wf_map m \<Longrightarrow> track i p m False m"
  by (simp add: track_def frame_at_def)

text \<open>The word that recovery leaves.\<close>

lemma scrub_word:
  fixes v :: u32
  assumes "0 \<le> i" "i < 16" "0 \<le> b" "b < 16" "b \<noteq> i"
  defines "n \<equiv> (let n = v AND NOT (reader_bit b)
                 in if write_field v = word_of_int (b + 1) then n AND reader_mask else n)"
  shows "holds_shared i n \<longleftrightarrow> holds_shared i v" "holds_write i n \<longleftrightarrow> holds_write i v"
    "write_field n \<le> write_field v"
proof -
  show "holds_shared i n \<longleftrightarrow> holds_shared i v"
    using assms(1-5)
    by (simp add: n_def Let_def holds_shared_and_mask holds_shared_clear_other)
  show "holds_write i n \<longleftrightarrow> holds_write i v"
  proof (cases "write_field v = word_of_int (b + 1)")
    case True
    then have "\<not> holds_write i v"
      using client_word_inj [OF assms(1,2,3,4)] assms(5) by (simp only: holds_write_def) simp
    moreover have "write_field n = 0"
      using True by (simp add: n_def Let_def write_field_and_mask)
    then have "\<not> holds_write i n"
      using client_word(1) [OF assms(1,2)] by (simp only: holds_write_def)
    ultimately show ?thesis by simp
  next
    case False
    then have "write_field n = write_field v"
      by (simp add: n_def Let_def write_field_clear_reader [OF assms(3,4)])
    then show ?thesis by (simp only: holds_write_def)
  qed
  show "write_field n \<le> write_field v"
  proof (cases "write_field v = word_of_int (b + 1)")
    case True
    then have "write_field n = 0"
      by (simp add: n_def Let_def write_field_and_mask)
    then show ?thesis by simp
  next
    case False
    then have "write_field n = write_field v"
      by (simp add: n_def Let_def write_field_clear_reader [OF assms(3,4)])
    then show ?thesis by simp
  qed
qed

lemma calm_cas:
  assumes "rely E i" "cas E q v n s = (old, s')"
      and "holds_shared i n \<longleftrightarrow> holds_shared i v"
      and "holds_write i n \<longleftrightarrow> holds_write i v"
      and "write_field n \<le> write_field v"
  shows "calm i (aMap s) (aMap s')"
  using assms(2)
proof (cases rule: cas_cases)
  case swapped
  have "calm i (aMap (peers_step E s)) ((aMap (peers_step E s))(q := n))"
    using assms(3-5) swapped(2) by (intro calm_upd) simp_all
  then show ?thesis
    using calm_peers_step [OF assms(1), of s] swapped(3) calm_trans by auto
next
  case failed
  then show ?thesis using calm_peers_step [OF assms(1), of s] by simp
qed

lemma calm_load: "rely E i \<Longrightarrow> load E q s = (v, s') \<Longrightarrow> calm i (aMap s) (aMap s')"
  using calm_peers_step load_eq by metis

lemma calm_rollback_cas:
  assumes "rely E i" "0 \<le> i" "i < 16" "0 \<le> b" "b < 16" "b \<noteq> i"
      and "rollback_cas E k q b v s = Some s'"
  shows "calm i (aMap s) (aMap s')"
  using assms(7)
proof (induction k arbitrary: v s)
  case 0
  then show ?case by simp
next
  case (Suc k)
  let ?n = "let n = v AND NOT (reader_bit b)
            in if write_field v = word_of_int (b + 1) then n AND reader_mask else n"
  obtain old s1 where c: "cas E q v ?n s = (old, s1)" by (cases "cas E q v ?n s")
  have c1: "calm i (aMap s) (aMap s1)"
    using assms(1) c scrub_word [OF assms(2-6), of v] by (rule calm_cas)
  show ?case
  proof (cases "old = v")
    case True
    then have "s' = s1" using Suc.prems c by (simp add: Let_def)
    then show ?thesis using c1 by simp
  next
    case False
    obtain v' s2 where l: "load E q s1 = (v', s2)" by (cases "load E q s1")
    have "rollback_cas E k q b v' s2 = Some s'"
      using Suc.prems c l False by (simp add: Let_def)
    then have "calm i (aMap s2) (aMap s')" by (rule Suc.IH)
    then show ?thesis using c1 calm_load [OF assms(1) l] calm_trans by blast
  qed
qed

lemma calm_rollback_slots:
  assumes "rely E i" "0 \<le> i" "i < 16" "0 \<le> b" "b < 16" "b \<noteq> i"
      and "rollback_slots E k b is s = Some s'"
  shows "calm i (aMap s) (aMap s')"
  using assms(7)
proof (induction "is" arbitrary: s)
  case Nil
  then show ?case by (simp add: calm_refl)
next
  case (Cons j "is")
  obtain v s1 where l: "load E (serverPageLockSlot (of_nat j)) s = (v, s1)"
    by (cases "load E (serverPageLockSlot (of_nat j)) s")
  from Cons.prems l obtain s2 where
    r: "rollback_cas E k (serverPageLockSlot (of_nat j)) b v s1 = Some s2"
    and rest: "rollback_slots E k b is s2 = Some s'"
    by (auto simp: Let_def split: option.splits)
  show ?case
    using calm_load [OF assms(1) l] calm_rollback_cas [OF assms(1-6) r] Cons.IH [OF rest]
      calm_trans by blast
qed

lemma calm_serverRollbackClient:
  assumes "rely E i" "0 \<le> i" "i < 16" "0 \<le> b" "b < 16" "b \<noteq> i"
      and "serverRollbackClient E k b s = Some (rc, s')"
  shows "calm i (aMap s) (aMap s')"
proof (cases "rollbackJournal E (tick s) b = SQLITE_OK")
  case True
  then obtain s2 where
    "rollback_slots E k b [0..<nat HMA_PAGELOCK_SLOTS]
       (s\<lparr>logs := logs s @ [Log_rolling_back b], tick := Suc (tick s)\<rparr>) = Some s2" "s' = s2"
    using assms(7) by (auto simp: serverRollbackClient_def Let_def)
  then show ?thesis using calm_rollback_slots [OF assms(1-6)] by fastforce
next
  case False
  then have "aMap s' = aMap s" using assms(7) by (auto simp: serverRollbackClient_def Let_def)
  then show ?thesis by (simp add: calm_refl)
qed

lemma overcome_scan_found:
  "0 \<le> j \<Longrightarrow> overcome_scan i v j < HMA_CLIENT_SLOTS \<Longrightarrow>
   j \<le> overcome_scan i v j \<and> overcome_scan i v j \<noteq> i \<and> holds_shared (overcome_scan i v j) v"
proof (induction i v j rule: overcome_scan.induct)
  case (1 i v j)
  show ?case
  proof (cases "j < HMA_CLIENT_SLOTS")
    case False
    then show ?thesis using "1.prems" by (subst (asm) overcome_scan.simps) simp
  next
    case True
    show ?thesis
    proof (cases "j \<noteq> i \<and> v AND reader_bit j \<noteq> 0")
      case True
      then have "overcome_scan i v j = j"
        using \<open>j < HMA_CLIENT_SLOTS\<close> by (subst overcome_scan.simps) simp
      then show ?thesis using True by (simp add: holds_shared_def)
    next
      case False
      then have e: "overcome_scan i v j = overcome_scan i v (j + 1)"
        using True by (subst overcome_scan.simps) auto
      then show ?thesis using "1.IH" [OF True False] "1.prems" by auto
    qed
  qed
qed

lemma overcome_scan_finds:
  "j \<le> b \<Longrightarrow> b < HMA_CLIENT_SLOTS \<Longrightarrow> b \<noteq> i \<Longrightarrow> holds_shared b v \<Longrightarrow>
   overcome_scan i v j < HMA_CLIENT_SLOTS"
proof (induction i v j rule: overcome_scan.induct)
  case (1 i v j)
  have lt: "j < HMA_CLIENT_SLOTS" using "1.prems" by simp
  show ?case
  proof (cases "j \<noteq> i \<and> v AND reader_bit j \<noteq> 0")
    case True
    then have "overcome_scan i v j = j" using lt by (subst overcome_scan.simps) simp
    then show ?thesis using lt by simp
  next
    case False
    then have e: "overcome_scan i v j = overcome_scan i v (j + 1)"
      using lt by (subst overcome_scan.simps) auto
    have "j \<noteq> b" using False "1.prems" by (auto simp: holds_shared_def)
    then have "j + 1 \<le> b" using "1.prems" by simp
    then show ?thesis using "1.IH" [OF lt False] "1.prems" e by simp
  qed
qed

lemma mask_has_reader:
  assumes "v AND lock_mask bWrite i \<noteq> 0"
  shows "\<exists>b. 0 \<le> b \<and> b < 16 \<and> b \<noteq> i \<and> holds_shared b v"
proof -
  from assms have bw: bWrite by (auto simp: lock_mask_def split: if_splits)
  from assms obtain n where "bit (v AND (reader_mask AND NOT (reader_bit i))) n"
    using bw by (auto simp: lock_mask_def bit_eq_iff)
  then have n: "bit v n" "n < 16" "n \<noteq> nat i"
    by (auto simp: bit_simps bit_reader_mask bit_reader_bit)
  then have "holds_shared (int n) v" "int n \<noteq> i" "int n < 16"
    by (auto simp: holds_shared_bit)
  then show ?thesis by (intro exI [of _ "int n"]) simp
qed

lemma blocker_range:
  assumes "0 \<le> i" "i < 16" "write_field v \<le> 16" "conflict bWrite i v"
  shows "0 \<le> blocker i v \<and> blocker i v < 16 \<and> blocker i v \<noteq> i"
proof -
  have u: "uint (write_field v) \<le> 16"
    using assms(3) by (simp add: word_le_def)
  show ?thesis
  proof (cases "uint (write_field v) - 1 < 0 \<or> uint (write_field v) - 1 = i")
    case False
    then show ?thesis using u by (simp add: blocker_def Let_def)
  next
    case True
    then have "v AND lock_mask bWrite i \<noteq> 0"
      using assms(4) by (auto simp: conflict_def Let_def serverWriteLocker_def)
    then obtain b where b: "0 \<le> b" "b < 16" "b \<noteq> i" "holds_shared b v"
      using mask_has_reader by blast
    then have "overcome_scan i v 0 < HMA_CLIENT_SLOTS"
      by (intro overcome_scan_finds [of 0 b]) (simp_all add: HMA_CLIENT_SLOTS_def)
    then show ?thesis
      using True overcome_scan_found [of 0 i v]
      by (simp add: blocker_def Let_def HMA_CLIENT_SLOTS_def)
  qed
qed

lemma posixLock_aMap: "posixLock E f j e b s = (r, s') \<Longrightarrow> aMap s' = aMap s"
  using posixLock_state by fastforce

lemma calm_serverOvercomeLock:
  assumes "rely E i" "0 \<le> i" "i < 16" "iClient s = i"
      and "0 \<le> blocker i v \<and> blocker i v < 16 \<and> blocker i v \<noteq> i"
      and "serverOvercomeLock E k bWrite bBlock v s = Some (rc, bRetry, s')"
  shows "calm i (aMap s) (aMap s')"
proof (cases "\<not> aClient s (blocker i v) \<and>
    fst (posixLock E (fd s) (blocker i v + 1) SERVER_WRITE_LOCK False s) = SQLITE_OK")
  case True
  obtain s1 where p: "posixLock E (fd s) (blocker i v + 1) SERVER_WRITE_LOCK False s = (SQLITE_OK, s1)"
    using True by (cases "posixLock E (fd s) (blocker i v + 1) SERVER_WRITE_LOCK False s") auto
  from assms(6) True p obtain rc2 s2 where
    r: "serverRollbackClient E k (blocker i v) s1 = Some (rc2, s2)"
    and s': "s' = snd (posixLock E (fd s2) (blocker i v + 1) SERVER_NO_LOCK False s2)"
    using assms(4) by (auto simp: serverOvercomeLock_def Let_def split: option.splits)
  have "calm i (aMap s1) (aMap s2)"
    using assms(1-3) assms(5) r by (intro calm_serverRollbackClient [of E i "blocker i v"]) auto
  moreover have "aMap s1 = aMap s" using p by (rule posixLock_aMap)
  moreover have "aMap s' = aMap s2" using s' by (simp add: posixLock_frame)
  ultimately show ?thesis by simp
next
  case False
  have "aMap s' = aMap s"
  proof (cases "aClient s (blocker i v)")
    case True
    then show ?thesis using assms(6) assms(4) by (simp add: serverOvercomeLock_def Let_def)
  next
    case nc: False
    obtain rc1 s1 where p: "posixLock E (fd s) (blocker i v + 1) SERVER_WRITE_LOCK False s = (rc1, s1)"
      by (cases "posixLock E (fd s) (blocker i v + 1) SERVER_WRITE_LOCK False s")
    have ne: "rc1 \<noteq> SQLITE_OK" using False nc p by simp
    have m1: "aMap s1 = aMap s" using p by (rule posixLock_aMap)
    show ?thesis
    proof (cases "rc1 = SQLITE_BUSY \<and> bBlock")
      case False
      then show ?thesis
        using assms(6) assms(4) nc p ne m1
        by (auto simp: serverOvercomeLock_def Let_def split: if_splits)
    next
      case True
      obtain r2 s2 where p2: "posixLock E (fd s1) (blocker i v + 1) SERVER_READ_LOCK True s1 = (r2, s2)"
        by (cases "posixLock E (fd s1) (blocker i v + 1) SERVER_READ_LOCK True s1")
      have m2: "aMap s2 = aMap s" using posixLock_aMap [OF p2] m1 by simp
      have "aMap (snd (posixLock E (fd s2) (blocker i v + 1) SERVER_NO_LOCK False s2)) = aMap s"
        using m2 by (simp add: posixLock_frame)
      then show ?thesis
        using assms(6) assms(4) nc p ne True p2 m2
        by (auto simp: serverOvercomeLock_def Let_def split: if_splits)
    qed
  qed
  then show ?thesis by (simp add: calm_refl)
qed

lemma track_wf: "track i p m0 bR m \<Longrightarrow> is_page_slot p \<Longrightarrow> write_field (m p) \<le> 16"
  by (simp add: track_def frame_at_def wf_map_def)

lemma track_frame: "track i p m0 bR m \<Longrightarrow> frame_at i p m0 m"
  by (simp add: track_def)

lemma frame_upd: "frame_at i p m0 m \<Longrightarrow> write_field n \<le> 16 \<Longrightarrow> frame_at i p m0 (m(p := n))"
  by (simp add: frame_at_def wf_map_def)

lemma track_upd:
  assumes "track i p m0 bR m" "write_field n \<le> 16"
      and "holds_shared i n \<longleftrightarrow> holds_shared i (m p)"
      and "holds_write i n \<longleftrightarrow> holds_write i (m p) \<or> bR'"
  shows "track i p m0 (bR \<or> bR') (m(p := n))"
  using assms frame_upd [of i p m0 m n] by (auto simp: track_def)

lemma mask_ignores_writer:
  "(v OR writer_bits j) AND lock_mask bWrite i = v AND lock_mask bWrite i"
  by (rule bit_eqI)
    (auto simp: lock_mask_def bit_simps bit_reader_mask bit_writer_bits bit_reader_bit)

lemma reserved_word:
  assumes "0 \<le> i" "i < 16" "serverWriteLocker v < 0" "conflict bWrite i v"
  shows "write_field (v OR writer_bits i) \<le> 16" "holds_write i (v OR writer_bits i)"
    "holds_shared i (v OR writer_bits i) \<longleftrightarrow> holds_shared i v"
    "conflict bWrite i (v OR writer_bits i)"
proof -
  have z: "write_field v = 0" using assms(3) by (simp only: writeLocker_neg)
  have w: "write_field (v OR writer_bits i) = word_of_int (i + 1)"
    by (simp only: write_field_set_writer [OF assms(1,2)] z or.left_neutral)
  show "write_field (v OR writer_bits i) \<le> 16"
    using client_word(2) [OF assms(1,2)] by (simp only: w)
  show "holds_write i (v OR writer_bits i)" by (simp only: holds_write_def w)
  show "holds_shared i (v OR writer_bits i) \<longleftrightarrow> holds_shared i v"
    by (rule holds_shared_set_writer [OF assms(1,2)])
  have "v AND lock_mask bWrite i \<noteq> 0"
    using assms(3,4) by (auto simp: conflict_def Let_def)
  then show "conflict bWrite i (v OR writer_bits i)"
    by (simp add: conflict_def Let_def mask_ignores_writer)
qed

lemma track_try_reserved:
  assumes "rely E i" "0 \<le> i" "i < 16" "iClient s = i" "is_page_slot p"
      and "track i p m0 bR (aMap s)" "write_field v \<le> 16" "conflict bWrite i v"
      and "try_reserved E p bWrite bBlock v bR s = (c, v1, bR1, s1)"
  shows "track i p m0 bR1 (aMap s1) \<and> write_field v1 \<le> 16 \<and> (\<not> c \<longrightarrow> conflict bWrite i v1)"
proof (cases "serverWriteLocker v < 0 \<and> bWrite \<and> bBlock")
  case False
  then have "c = False" "v1 = v" "bR1 = bR" "s1 = s"
    using assms(9) by (auto simp: try_reserved_def)
  then show ?thesis using assms(6-8) by simp
next
  case True
  let ?n = "v OR writer_bits i"
  obtain old s2 where x: "cas E p v ?n s = (old, s2)" by (cases "cas E p v ?n s")
  note rw = reserved_word [OF assms(2,3) conjunct1 [OF True] assms(8)]
  from x show ?thesis
  proof (cases rule: cas_cases)
    case swapped
    then have res: "c = False" "v1 = ?n" "bR1 = True" "s1 = s2"
      using assms(9) True x assms(4) by (auto simp: try_reserved_def Let_def)
    have t1: "track i p m0 bR (aMap (peers_step E s))"
      using assms(6) calm_peers_step [OF assms(1)] assms(5) by (rule track_calm)
    have "track i p m0 (bR \<or> True) ((aMap (peers_step E s))(p := ?n))"
      using t1 rw(1) by (rule track_upd) (simp_all add: swapped(2) rw)
    then show ?thesis using res swapped(3) rw by simp
  next
    case failed
    obtain v' s3 where l: "load E p s2 = (v', s3)" by (cases "load E p s2")
    then have res: "c = True" "v1 = v'" "bR1 = bR" "s1 = s3"
      using assms(9) True x assms(4) failed(1) by (auto simp: try_reserved_def Let_def)
    have "calm i (aMap s) (aMap s3)"
      using calm_peers_step [OF assms(1), of s] failed(2) calm_load [OF assms(1) l] calm_trans
      by metis
    then have t3: "track i p m0 bR (aMap s3)" using assms(6) assms(5) track_calm by blast
    then have "write_field v' \<le> 16" using track_wf [OF t3 assms(5)] load_eq [OF l] by simp
    then show ?thesis using res t3 by simp
  qed
qed

lemma track_lock_conflicts:
  assumes "rely E i" "0 \<le> i" "i < 16"
  shows "iClient s = i \<Longrightarrow> track i (serverPageLockSlot pgno) m0 bR (aMap s) \<Longrightarrow>
     write_field v \<le> 16 \<Longrightarrow>
     lock_conflicts E k pgno bWrite bBlock v bR s = Some (r, bR', s') \<Longrightarrow>
     track i (serverPageLockSlot pgno) m0 bR' (aMap s')
     \<and> (\<forall>v'. r = Inr v' \<longrightarrow> write_field v' \<le> 16)"
proof (induction k arbitrary: v bR s)
  case 0
  then show ?case by simp
next
  case (Suc k)
  let ?p = "serverPageLockSlot pgno"
  note ps = page_slot_is_page_slot [of pgno]
  show ?case
  proof (cases "conflict bWrite i v")
    case False
    then show ?thesis using Suc.prems by auto
  next
    case True
    obtain c v1 bR1 s1 where t: "try_reserved E ?p bWrite bBlock v bR s = (c, v1, bR1, s1)"
      by (cases "try_reserved E ?p bWrite bBlock v bR s") auto
    have i1: "iClient s1 = i" using priv_fields(1) [OF priv_try_reserved [OF t]] Suc.prems(1) by simp
    have t1: "track i ?p m0 bR1 (aMap s1)" "write_field v1 \<le> 16" "\<not> c \<Longrightarrow> conflict bWrite i v1"
      using track_try_reserved [OF assms Suc.prems(1) ps Suc.prems(2,3) True t] by simp_all
    show ?thesis
    proof (cases c)
      case True
      then have "lock_conflicts E k pgno bWrite bBlock v1 bR1 s1 = Some (r, bR', s')"
        using Suc.prems(4) \<open>conflict bWrite i v\<close> Suc.prems(1) t by simp
      then show ?thesis using Suc.IH [OF i1 t1(1,2)] by simp
    next
      case False
      then obtain rc bRetry s2 where
        o: "serverOvercomeLock E k bWrite bBlock v1 s1 = Some (rc, bRetry, s2)"
        using Suc.prems(4) \<open>conflict bWrite i v\<close> Suc.prems(1) t
        by (auto split: option.splits)
      have i2: "iClient s2 = i"
        using priv_fields(1) [OF priv_serverOvercomeLock [OF o]] i1 by simp
      have "calm i (aMap s1) (aMap s2)"
        using assms i1 blocker_range [OF assms(2,3) t1(2) t1(3) [OF False]] o
        by (rule calm_serverOvercomeLock)
      then have t2: "track i ?p m0 bR1 (aMap s2)" using t1(1) ps track_calm by blast
      show ?thesis
      proof (cases "rc = SQLITE_OK \<and> bRetry")
        case False
        then have "bR' = bR1 \<and> aMap s' = aMap s2 \<and> (\<exists>e. r = Inl e)"
          using Suc.prems(4) \<open>conflict bWrite i v\<close> Suc.prems(1) t \<open>\<not> c\<close> o
          by (auto split: if_splits)
        then show ?thesis using t2 by auto
      next
        case True
        obtain v2 s3 where l: "load E ?p s2 = (v2, s3)" by (cases "load E ?p s2")
        have i3: "iClient s3 = i" using priv_fields(1) [OF priv_load_eq [OF l]] i2 by simp
        have t3: "track i ?p m0 bR1 (aMap s3)"
          using t2 calm_load [OF assms(1) l] ps by (rule track_calm)
        have w3: "write_field v2 \<le> 16" using track_wf [OF t3 ps] load_eq [OF l] by simp
        have "lock_conflicts E k pgno bWrite bBlock v2 bR1 s3 = Some (r, bR', s')"
          using Suc.prems(4) \<open>conflict bWrite i v\<close> Suc.prems(1) t \<open>\<not> c\<close> o True l by simp
        then show ?thesis using Suc.IH [OF i3 t3 w3] by simp
      qed
    qed
  qed
qed

lemma installed_word_wf:
  assumes "0 \<le> i" "i < 16" "\<not> conflict bWrite i v" "write_field v \<le> 16"
  shows "write_field (let n = v OR reader_bit i in if bWrite then n OR writer_bits i else n) \<le> 16"
proof (cases bWrite)
  case True
  then have "holds_write i (let n = v OR reader_bit i in if bWrite then n OR writer_bits i else n)"
    using installed_word(2) [OF assms(1-3)] by simp
  then show ?thesis using client_word(2) [OF assms(1,2)] by (simp only: holds_write_def)
next
  case False
  then show ?thesis using assms(4) by (simp add: Let_def write_field_set_reader [OF assms(1,2)])
qed

lemma track_lock_acquire:
  assumes "rely E i" "0 \<le> i" "i < 16"
  shows "iClient s = i \<Longrightarrow> track i (serverPageLockSlot pgno) m0 bR (aMap s) \<Longrightarrow>
     write_field v \<le> 16 \<Longrightarrow>
     lock_acquire E k pgno bWrite bBlock v bR s = Some (rc, bR', s') \<Longrightarrow>
     frame_at i (serverPageLockSlot pgno) m0 (aMap s')
     \<and> (rc \<noteq> SQLITE_OK \<longrightarrow> track i (serverPageLockSlot pgno) m0 bR' (aMap s'))"
proof (induction k arbitrary: v bR s)
  case 0
  then show ?case by simp
next
  case (Suc k)
  let ?p = "serverPageLockSlot pgno"
  note ps = page_slot_is_page_slot [of pgno]
  from Suc.prems(4) obtain r bR1 s1 where
    c: "lock_conflicts E (Suc k) pgno bWrite bBlock v bR s = Some (r, bR1, s1)"
    by (auto simp del: lock_conflicts.simps split: option.splits)
  have i1: "iClient s1 = i" using priv_fields(1) [OF priv_lock_conflicts [OF c]] Suc.prems(1) by simp
  have t1: "track i ?p m0 bR1 (aMap s1)" "\<And>v'. r = Inr v' \<Longrightarrow> write_field v' \<le> 16"
    using track_lock_conflicts [OF assms Suc.prems(1-3) c] by simp_all
  show ?case
  proof (cases r)
    case (Inl rc')
    then have "rc = rc'" "bR' = bR1" "s' = s1"
      using Suc.prems(4) c by (simp_all del: lock_conflicts.simps)
    then show ?thesis using t1(1) track_frame by blast
  next
    case (Inr v1)
    then have nc: "\<not> conflict bWrite i v1"
      using lock_conflicts_exit [OF c] Suc.prems(1) by simp
    have w1: "write_field v1 \<le> 16" using t1(2) Inr by simp
    let ?n = "let n = v1 OR reader_bit (iClient s1)
              in if bWrite then n OR writer_bits (iClient s1) else n"
    have wn: "write_field ?n \<le> 16"
      using installed_word_wf [OF assms(2,3) nc w1] unfolding i1 by simp
    obtain old s2 where x: "cas E ?p v1 ?n s1 = (old, s2)" by (cases "cas E ?p v1 ?n s1")
    from x show ?thesis
    proof (cases rule: cas_cases)
      case swapped
      then have res: "rc = SQLITE_OK" "s' = s2"
        using Suc.prems(4) c Inr x by (simp_all del: lock_conflicts.simps add: Let_def)
      have "frame_at i ?p m0 (aMap (peers_step E s1))"
        using track_frame [OF t1(1)] calm_peers_step [OF assms(1)] by (rule frame_calm)
      then have "frame_at i ?p m0 ((aMap (peers_step E s1))(?p := ?n))"
        using wn by (rule frame_upd)
      moreover have "aMap s' = (aMap (peers_step E s1))(?p := ?n)"
        using res(2) swapped(3) by simp
      ultimately have "frame_at i ?p m0 (aMap s')" by (simp only:)
      then show ?thesis using res(1) by simp
    next
      case failed
      obtain v2 s3 where l: "load E ?p s2 = (v2, s3)" by (cases "load E ?p s2")
      have i3: "iClient s3 = i"
        using priv_fields(1) [OF priv_load_eq [OF l]] priv_fields(1) [OF priv_cas_eq [OF x]] i1
        by simp
      have "calm i (aMap s1) (aMap s3)"
        using calm_peers_step [OF assms(1), of s1] failed(2) calm_load [OF assms(1) l] calm_trans
        by metis
      then have t3: "track i ?p m0 bR1 (aMap s3)" using t1(1) ps track_calm by blast
      have w3: "write_field v2 \<le> 16" using track_wf [OF t3 ps] load_eq [OF l] by simp
      have "lock_acquire E k pgno bWrite bBlock v2 bR1 s3 = Some (rc, bR', s')"
        using Suc.prems(4) c Inr x failed(1) l by (simp del: lock_conflicts.simps add: Let_def)
      then show ?thesis using Suc.IH [OF i3 t3 w3] by simp
    qed
  qed
qed

lemma track_lock_unreserve:
  assumes "rely E i" "0 \<le> i" "i < 16" "is_page_slot p"
  shows "track i p m0 bR (aMap s) \<Longrightarrow> lock_unreserve E k p s = Some s' \<Longrightarrow>
     frame_at i p m0 (aMap s')
     \<and> (holds_shared i (aMap s' p) \<longleftrightarrow> holds_shared i (m0 p))
     \<and> \<not> holds_write i (aMap s' p)"
proof (induction k arbitrary: s)
  case 0
  then show ?case by simp
next
  case (Suc k)
  obtain v s1 where l: "load E p s = (v, s1)" by (cases "load E p s")
  obtain old s2 where x: "cas E p v (v AND reader_mask) s1 = (old, s2)"
    by (cases "cas E p v (v AND reader_mask) s1")
  have t1: "track i p m0 bR (aMap s1)"
    using Suc.prems(1) calm_load [OF assms(1) l] assms(4) by (rule track_calm)
  have tp: "track i p m0 bR (aMap (peers_step E s1))"
    using t1 calm_peers_step [OF assms(1)] assms(4) by (rule track_calm)
  from x show ?case
  proof (cases rule: cas_cases)
    case swapped
    then have res: "s' = s2" using Suc.prems(2) l x by (simp add: Let_def)
    have z: "write_field (v AND reader_mask) = 0" by (rule write_field_and_mask)
    have "frame_at i p m0 ((aMap (peers_step E s1))(p := v AND reader_mask))"
      using track_frame [OF tp] by (rule frame_upd) (simp add: z)
    moreover have "holds_shared i (v AND reader_mask) \<longleftrightarrow> holds_shared i (m0 p)"
      using tp swapped(2) holds_shared_and_mask [OF assms(2,3), of v] by (simp add: track_def)
    moreover have "\<not> holds_write i (v AND reader_mask)"
      using client_word(1) [OF assms(2,3)] by (simp only: holds_write_def z)
    moreover have "aMap s' = (aMap (peers_step E s1))(p := v AND reader_mask)"
      using res swapped(3) by simp
    ultimately show ?thesis by (simp only: fun_upd_same simp_thms)
  next
    case failed
    then have "lock_unreserve E k p s2 = Some s'" using Suc.prems(2) l x by (simp add: Let_def)
    moreover have "track i p m0 bR (aMap s2)" using tp failed(2) by simp
    ultimately show ?thesis using Suc.IH by blast
  qed
qed

lemma server_lock_out_unreserved:
  "rc = SQLITE_OK \<or> \<not> bR \<Longrightarrow>
   server_lock_out E k pgno rc bR s = Some (rc, writer_start E pgno s)"
  by (auto simp: server_lock_out_def)

lemma frame_refl: "wf_map m \<Longrightarrow> frame_at i p m m"
  by (simp add: frame_at_def)

lemma calm_frame:
  "wf_map m \<Longrightarrow> calm i m m' \<Longrightarrow> is_page_slot p \<Longrightarrow> track i p m False m'"
  using track_start track_calm by blast

text \<open>What a call of \<open>sqlite3ServerLock\<close> does to the contributions of its client.\<close>

lemma lock_effect:
  assumes "rely E (iClient s)" "0 \<le> iClient s" "iClient s < 16" "wf_map (aMap s)"
      and "sqlite3ServerLock E k pgno bWrite bBlock s = Some (rc, s')"
  shows "frame_at (iClient s) (serverPageLockSlot pgno) (aMap s) (aMap s')"
    and "rc \<noteq> SQLITE_OK \<Longrightarrow>
         (holds_shared (iClient s) (aMap s' (serverPageLockSlot pgno))
            \<longleftrightarrow> holds_shared (iClient s) (aMap s (serverPageLockSlot pgno)))
         \<and> (holds_write (iClient s) (aMap s' (serverPageLockSlot pgno))
            \<longrightarrow> holds_write (iClient s) (aMap s (serverPageLockSlot pgno)))"
    and "history s' = history s @ [pgno]
         \<or> history s' = history s
            \<and> track (iClient s) (serverPageLockSlot pgno) (aMap s) False (aMap s')"
    and "iClient s' = iClient s"
proof -
  let ?i = "iClient s" and ?p = "serverPageLockSlot pgno"
  note ps = page_slot_is_page_slot [of pgno]
  obtain rc0 s0 where g: "grow_aLock E s = (rc0, s0)" by (cases "grow_aLock E s")
  have s0: "nLock s0 = nLock s" "aLock s0 = aLock s" "iClient s0 = ?i" "aMap s0 = aMap s"
    using grow_aLock_history [of E s] g by simp_all
  have all: "frame_at ?i ?p (aMap s) (aMap s')
    \<and> (rc \<noteq> SQLITE_OK \<longrightarrow>
         (holds_shared ?i (aMap s' ?p) \<longleftrightarrow> holds_shared ?i (aMap s ?p))
         \<and> (holds_write ?i (aMap s' ?p) \<longrightarrow> holds_write ?i (aMap s ?p)))
    \<and> (history s' = history s @ [pgno]
         \<or> history s' = history s \<and> track ?i ?p (aMap s) False (aMap s'))
    \<and> iClient s' = ?i"
  proof (cases "rc0 = SQLITE_OK")
    case False
    then have "server_lock_out E k pgno rc0 False s0 = Some (rc, s')"
      using assms(5) g by (simp add: sqlite3ServerLock_def Let_def)
    then have s': "s' = writer_start E pgno s0"
      by (simp add: server_lock_out_unreserved)
    have "history s' = history s" using s' s0 by (intro history_cong) simp_all
    then show ?thesis using s' s0 track_start [OF assms(4)] frame_refl [OF assms(4)] by simp
  next
    case True
    obtain v s1 where l: "load E ?p s0 = (v, s1)" by (cases "load E ?p s0")
    have p1: "priv s1 = priv s0" using l by (rule priv_load_eq)
    have i1: "iClient s1 = ?i" using priv_fields(1) [OF p1] s0 by simp
    have c1: "calm ?i (aMap s) (aMap s1)" using calm_load [OF assms(1) l] s0 by simp
    have t1: "track ?i ?p (aMap s) False (aMap s1)" using assms(4) c1 ps by (rule calm_frame)
    have w1: "write_field v \<le> 16" using track_wf [OF t1 ps] load_eq [OF l] by simp
    show ?thesis
    proof (cases "already_held bWrite (iClient s1) v")
      case held: True
      then have s': "s' = writer_start E pgno s1"
        using assms(5) g True l by (simp add: sqlite3ServerLock_def Let_def server_lock_out_ok)
      have "history s' = history s"
        using s' priv_fields(4,5) [OF p1] s0 by (intro history_cong) simp_all
      moreover have "rc = SQLITE_OK"
        using assms(5) g True l held by (simp add: sqlite3ServerLock_def Let_def server_lock_out_ok)
      ultimately show ?thesis using s' t1 i1 track_frame [OF t1] by simp
    next
      case nh: False
      let ?s1 = "s1\<lparr>aLock := (aLock s1)(nLock s1 := pgno), nLock := Suc (nLock s1)\<rparr>"
      from assms(5) g True l nh obtain rc1 bR s2 where
        a: "lock_acquire E k pgno bWrite bBlock v False ?s1 = Some (rc1, bR, s2)"
        and out: "server_lock_out E k pgno rc1 bR s2 = Some (rc, s')"
        by (auto simp: sqlite3ServerLock_def Let_def split: option.splits)
      have rc: "rc = rc1" using server_lock_out_rc [OF out] .
      have i2: "iClient s2 = ?i" using priv_fields(1) [OF priv_lock_acquire [OF a]] i1 by simp
      have t2: "frame_at ?i ?p (aMap s) (aMap s2)"
        "rc1 \<noteq> SQLITE_OK \<Longrightarrow> track ?i ?p (aMap s) bR (aMap s2)"
        using track_lock_acquire [OF assms(1-3), of ?s1 pgno "aMap s" False v k bWrite bBlock rc1 bR s2]
          i1 t1 w1 a by simp_all
      have h: "history s' = history s @ [pgno]"
      proof -
        have "fst (grow_aLock E s) = SQLITE_OK" using g True by simp
        moreover have "\<not> already_held bWrite ?i (fst (load E ?p (snd (grow_aLock E s))))"
          using nh g l i1 by simp
        ultimately show ?thesis using lock_slow_path [OF _ _ assms(5)] history_append by blast
      qed
      show ?thesis
      proof (cases "rc1 \<noteq> SQLITE_OK \<and> bR")
        case False
        then have s': "s' = writer_start E pgno s2"
          using out by (auto simp: server_lock_out_unreserved)
        show ?thesis
        proof (cases "rc1 = SQLITE_OK")
          case True
          then show ?thesis using s' t2(1) h i2 rc by simp
        next
          case ne: False
          then have "track ?i ?p (aMap s) False (aMap s2)" using t2(2) False by simp
          then show ?thesis using s' t2(1) h i2 rc by (simp add: track_def)
        qed
      next
        case True
        then obtain s3 where u: "lock_unreserve E k ?p s2 = Some s3"
          and s': "s' = writer_start E pgno s3"
          using out by (auto simp: server_lock_out_def split: option.splits)
        have "track ?i ?p (aMap s) bR (aMap s2)" using t2(2) True by simp
        then have "frame_at ?i ?p (aMap s) (aMap s3)
           \<and> (holds_shared ?i (aMap s3 ?p) \<longleftrightarrow> holds_shared ?i (aMap s ?p))
           \<and> \<not> holds_write ?i (aMap s3 ?p)"
          using u by (rule track_lock_unreserve [OF assms(1-3) ps])
        moreover have "iClient s3 = ?i" using priv_fields(1) [OF priv_lock_unreserve [OF u]] i2 by simp
        ultimately show ?thesis using s' h by simp
      qed
    qed
  qed
  show "frame_at ?i ?p (aMap s) (aMap s')" using all by simp
  show "rc \<noteq> SQLITE_OK \<Longrightarrow>
         (holds_shared ?i (aMap s' ?p) \<longleftrightarrow> holds_shared ?i (aMap s ?p))
         \<and> (holds_write ?i (aMap s' ?p) \<longrightarrow> holds_write ?i (aMap s ?p))" using all by simp
  show "history s' = history s @ [pgno]
         \<or> history s' = history s \<and> track ?i ?p (aMap s) False (aMap s')" using all by simp
  show "iClient s' = ?i" using all by simp
qed

subsection \<open>A failed request leaves nothing behind\<close>

text \<open>
  C4, as amended. Let the connection have a client id from 0 to 15, let the write fields
  of the page-lock words be in range, and let the other connections leave the bits of
  the connection alone. When \<^verbatim>\<open>sqlite3ServerLock\<close> returns a code other than OK, the
  write field of the slot names the caller on exit only if it did before the call (a
  RESERVED lock that the call installed has been taken back; a RESERVED or EXCLUSIVE
  lock held since an earlier call stays), the reader bit of the caller in the slot is as
  before the call, and so are the reader bit and the ownership of the write field of the
  caller in every other page-lock word.
\<close>

theorem failed_lock_retains_nothing:
  assumes "rely E (iClient s)" "0 \<le> iClient s" "iClient s < 16" "wf_map (aMap s)"
      and "sqlite3ServerLock E k pgno bWrite bBlock s = Some (rc, s')"
      and "rc \<noteq> SQLITE_OK"
  shows "(holds_write (iClient s) (aMap s' (serverPageLockSlot pgno))
            \<longrightarrow> holds_write (iClient s) (aMap s (serverPageLockSlot pgno)))
     \<and> (holds_shared (iClient s) (aMap s' (serverPageLockSlot pgno))
            \<longleftrightarrow> holds_shared (iClient s) (aMap s (serverPageLockSlot pgno)))
     \<and> (\<forall>q. is_page_slot q \<and> q \<noteq> serverPageLockSlot pgno \<longrightarrow>
            (holds_write (iClient s) (aMap s' q) \<longleftrightarrow> holds_write (iClient s) (aMap s q))
          \<and> (holds_shared (iClient s) (aMap s' q) \<longleftrightarrow> holds_shared (iClient s) (aMap s q)))"
  using lock_effect(1) [OF assms(1-5)] lock_effect(2) [OF assms(1-5) assms(6)]
  by (simp add: frame_at_def)

lemma wf_map_state_peer: "wf_map (aMap state_peer)"
  by (simp add: wf_map_def state_peer_def state0_def write_field_def)

theorem failed_lock_retains_nothing_witness:
  "fst (the (sqlite3ServerLock env0 (Suc (Suc 0)) 0 True True state_peer)) = SQLITE_BUSY_DEADLOCK
   \<and> \<not> holds_write 0 (aMap (snd (the (sqlite3ServerLock env0 (Suc (Suc 0)) 0 True True state_peer))) 17)
   \<and> \<not> holds_shared 0 (aMap (snd (the (sqlite3ServerLock env0 (Suc (Suc 0)) 0 True True state_peer))) 17)"
proof -
  obtain s' where e: "sqlite3ServerLock env0 (Suc (Suc 0)) 0 True True state_peer
      = Some (SQLITE_BUSY_DEADLOCK, s')"
    using lock_page0_deadlock by blast
  have h: "rely env0 (iClient state_peer)" "0 \<le> iClient state_peer" "iClient state_peer < 16"
    by (simp_all add: rely_env0 state_peer_def state0_def)
  have i: "iClient state_peer = 0" "serverPageLockSlot 0 = 17"
    by (simp_all add: state_peer_def state0_def model_defs)
  have b: "\<not> holds_write 0 (aMap state_peer 17)" "\<not> holds_shared 0 (aMap state_peer 17)"
    by (simp_all add: holds_write_def holds_shared_def state_peer_def state0_def model_defs)
  have "\<not> holds_write 0 (aMap s' 17) \<and> \<not> holds_shared 0 (aMap s' 17)"
    using failed_lock_retains_nothing [OF h wf_map_state_peer e] b by (simp add: i)
  then show ?thesis by (simp add: e)
qed

lemma wf_map_state_excl128: "wf_map (aMap state_excl128)"
  by (simp add: wf_map_def state_excl128_def state0_def write_field_def)

lemma rely_env_nomem: "rely env_nomem i"
  by (simp add: rely_def keeps_def env_nomem_def env0_def)

text \<open>
  C4, as stated, fails: client 0 holds EXCLUSIVE on page 5 and has 128 pages in a history
  buffer of 128 entries; the allocator refuses to grow the buffer, the write request for
  page 5 returns NOMEM, and on exit the write field of the slot still names the caller.
\<close>

theorem failed_lock_names_caller_counterexample:
  "sqlite3ServerLock env_nomem (Suc 0) 5 True True state_excl128 =
       Some (SQLITE_NOMEM, state_excl128\<lparr>tick := 1\<rparr>)
   \<and> SQLITE_NOMEM \<noteq> SQLITE_OK
   \<and> holds_write (iClient state_excl128)
       (aMap (state_excl128\<lparr>tick := 1\<rparr>) (serverPageLockSlot 5))"
  by (simp add: holds_write_def model_defs world_defs state_excl128_def Let_def)

subsection \<open>The end of a transaction releases every lock\<close>

lemma calm_contributes:
  "calm i m m' \<Longrightarrow> is_page_slot q \<Longrightarrow> contributes i (m' q) = contributes i (m q)"
  by (simp add: calm_def keeps_def contributes_def)

lemma end_word:
  assumes "0 \<le> i" "i < 16"
  shows "\<not> contributes i
     ((if write_field v = word_of_int (i + 1) then v AND reader_mask else v)
        AND NOT (reader_bit i))"
proof -
  define u where "u = (if write_field v = word_of_int (i + 1) then v AND reader_mask else v)"
  have u: "write_field u \<noteq> word_of_int (i + 1)"
  proof (cases "write_field v = word_of_int (i + 1)")
    case True
    then have "u = v AND reader_mask" by (simp add: u_def)
    then have "write_field u = 0" by (simp only: write_field_and_mask)
    then show ?thesis using client_word(1) [OF assms] by (simp only:)
  next
    case False
    then have "u = v" by (simp add: u_def)
    then show ?thesis using False by simp
  qed
  have "\<not> holds_shared i (u AND NOT (reader_bit i))" by (rule holds_shared_clear_self)
  moreover have "\<not> holds_write i (u AND NOT (reader_bit i))"
    using u by (simp only: holds_write_def write_field_clear_reader [OF assms] simp_thms)
  ultimately show ?thesis by (simp only: contributes_def u_def simp_thms)
qed

lemma end_cas_effect:
  assumes "rely E i" "0 \<le> i" "i < 16"
  shows "iClient s = i \<Longrightarrow> end_cas E k p s = Some s' \<Longrightarrow>
     priv s' = priv s
     \<and> (\<forall>q. is_page_slot q \<and> contributes i (aMap s' q) \<longrightarrow> contributes i (aMap s q) \<and> q \<noteq> p)"
proof (induction k arbitrary: s)
  case 0
  then show ?case by simp
next
  case (Suc k)
  obtain v s1 where l: "load E p s = (v, s1)" by (cases "load E p s")
  have p1: "priv s1 = priv s" using l by (rule priv_load_eq)
  have i1: "iClient s1 = i" using priv_fields(1) [OF p1] Suc.prems(1) by simp
  let ?n = "(if write_field v = word_of_int (i + 1) then v AND reader_mask else v)
        AND NOT (reader_bit i)"
  obtain old s2 where x: "cas E p v ?n s1 = (old, s2)" by (cases "cas E p v ?n s1")
  have p2: "priv s2 = priv s" using priv_cas_eq [OF x] p1 by simp
  have cp: "calm i (aMap s) (aMap (peers_step E s1))"
    using calm_load [OF assms(1) l] calm_peers_step [OF assms(1), of s1] by (rule calm_trans)
  have step: "end_cas E (Suc k) p s = (if old = v then Some s2 else end_cas E k p s2)"
    using l x i1 by (simp add: Let_def)
  from x show ?case
  proof (cases rule: cas_cases)
    case swapped
    then have s': "s' = s2" using Suc.prems(2) step by simp
    have m: "aMap s2 = (aMap (peers_step E s1))(p := ?n)" using swapped(3) by simp
    have "contributes i (aMap s q) \<and> q \<noteq> p" if "is_page_slot q" "contributes i (aMap s2 q)" for q
    proof -
      have "q \<noteq> p" using that(2) end_word [OF assms(2,3), of v] by (auto simp only: m fun_upd_same)
      then have "aMap s2 q = aMap (peers_step E s1) q" using m by simp
      then show ?thesis using that calm_contributes [OF cp that(1)] \<open>q \<noteq> p\<close> by simp
    qed
    then show ?thesis using s' p2 by blast
  next
    case failed
    then have r: "end_cas E k p s2 = Some s'" using Suc.prems(2) step by simp
    have i2: "iClient s2 = i" using priv_fields(1) [OF p2] Suc.prems(1) by simp
    have "priv s' = priv s2
     \<and> (\<forall>q. is_page_slot q \<and> contributes i (aMap s' q) \<longrightarrow> contributes i (aMap s2 q) \<and> q \<noteq> p)"
      using i2 r by (rule Suc.IH)
    then show ?thesis using p2 calm_contributes [OF cp] failed(2) by auto
  qed
qed

lemma end_writer_time_frame [simp]:
  "aMap (end_writer_time E s) = aMap s" "iClient (end_writer_time E s) = iClient s"
  by (simp_all add: end_writer_time_def Let_def split: prod.splits)

lemma end_page_effect:
  assumes "rely E i" "0 \<le> i" "i < 16" "iClient s = i" "end_page E k pgno s = Some s'"
  shows "iClient s' = i
     \<and> (\<forall>q. is_page_slot q \<and> contributes i (aMap s' q)
           \<longrightarrow> contributes i (aMap s q) \<and> q \<noteq> serverPageLockSlot pgno)"
proof -
  from assms(5) obtain s1 where
    c: "end_cas E k (serverPageLockSlot pgno) s = Some s1"
    and s': "s' = (if pgno = 0 then end_writer_time E s1 else s1)"
    by (auto simp: end_page_def split: option.splits)
  have "priv s1 = priv s
     \<and> (\<forall>q. is_page_slot q \<and> contributes i (aMap s1 q)
           \<longrightarrow> contributes i (aMap s q) \<and> q \<noteq> serverPageLockSlot pgno)"
    using assms(4) c by (rule end_cas_effect [OF assms(1-3)])
  then show ?thesis using s' priv_fields(1) [of s1 s] assms(4) by (cases "pgno = 0") auto
qed

lemma end_pages_effect:
  assumes "rely E i" "0 \<le> i" "i < 16"
  shows "iClient s = i \<Longrightarrow> end_pages E k ps s = Some s' \<Longrightarrow>
     iClient s' = i \<and> aLock s' = aLock s
     \<and> (\<forall>q. is_page_slot q \<and> contributes i (aMap s' q)
           \<longrightarrow> contributes i (aMap s q) \<and> q \<notin> serverPageLockSlot ` set ps)"
proof (induction ps arbitrary: s)
  case Nil
  then show ?case by simp
next
  case (Cons pgno ps)
  from Cons.prems(2) obtain s1 where
    p: "end_page E k pgno s = Some s1" and r: "end_pages E k ps s1 = Some s'"
    by (auto split: option.splits)
  note e1 = end_page_effect [OF assms Cons.prems(1) p]
  have a1: "aLock s1 = aLock s"
    using p by (auto simp: end_page_def end_writer_time_def Let_def
        split: option.splits if_splits prod.splits dest!: end_cas_effect [OF assms Cons.prems(1)] priv_fields(5))
  note e2 = Cons.IH [OF conjunct1 [OF e1] r]
  show ?case using e1 e2 a1 by auto
qed

text \<open>When the other connections are quiet every loop of \<^verbatim>\<open>sqlite3ServerEnd\<close> ends in
  its first round.\<close>

lemma end_cas_quiet:
  assumes "\<forall>t m. peers E t m = m"
  shows "\<exists>s'. end_cas E (Suc k) p s = Some s'"
proof -
  let ?s1 = "s\<lparr>tick := Suc (tick s)\<rparr>" and ?v = "aMap s p"
  let ?n = "(if write_field ?v = word_of_int (iClient ?s1 + 1) then ?v AND reader_mask else ?v)
        AND NOT (reader_bit (iClient ?s1))"
  have l: "load E p s = (?v, ?s1)"
    using assms by (simp add: load_def peers_step_def Let_def)
  obtain old s2 where x: "cas E p ?v ?n ?s1 = (old, s2)" by (cases "cas E p ?v ?n ?s1")
  then have "old = ?v" using assms by (auto simp: cas_def peers_step_def Let_def)
  then have "end_cas E (Suc k) p s = Some s2"
    using l x by (simp add: Let_def)
  then show ?thesis by blast
qed

lemma end_pages_quiet:
  assumes "\<forall>t m. peers E t m = m"
  shows "\<exists>s'. end_pages E (Suc k) ps s = Some s'"
proof (induction ps arbitrary: s)
  case Nil
  then show ?case by simp
next
  case (Cons pgno ps)
  obtain s1 where "end_cas E (Suc k) (serverPageLockSlot pgno) s = Some s1"
    using end_cas_quiet [OF assms] by blast
  then obtain s2 where "end_page E (Suc k) pgno s = Some s2"
    by (simp add: end_page_def)
  then show ?case using Cons.IH [of s2] by (simp del: end_cas.simps)
qed

lemma end_quiet:
  assumes "\<forall>t m. peers E t m = m"
  shows "\<exists>rc s'. sqlite3ServerEnd E (Suc k) s = Some (rc, s')"
proof -
  obtain s1 where "end_pages E (Suc k) (history s) s = Some s1"
    using end_pages_quiet [OF assms] by blast
  then show ?thesis
    by (cases "posixLock E (fd s1) (iClient s1 + 1) SERVER_READ_LOCK False (s1\<lparr>nLock := 0\<rparr>)")
      (simp add: sqlite3ServerEnd_def)
qed

text \<open>
  C3. Let the connection have a client id \<open>i\<close> from 0 to 15, let the other connections
  leave its bits alone, and let its lock-history cover every page-lock slot in which bit
  \<open>i\<close> is set or the write field is \<open>i + 1\<close>. When \<^verbatim>\<open>sqlite3ServerEnd\<close> returns, no
  page-lock word has bit \<open>i\<close> set or the write field \<open>i + 1\<close>. In particular (the write
  fields being in range) a call of \<^verbatim>\<open>sqlite3ServerLock\<close> for a page, whatever it
  returns, followed by \<^verbatim>\<open>sqlite3ServerEnd\<close> leaves the slot of the page without bit \<open>i\<close>
  and without the write field \<open>i + 1\<close>. \<^verbatim>\<open>sqlite3ServerEnd\<close> does return, for every
  positive bound on its loops, when the other connections are quiet.
\<close>

theorem end_releases_every_lock:
  assumes "rely E (iClient s)" "0 \<le> iClient s" "iClient s < 16" "covers s"
  shows "(\<forall>rc s'. sqlite3ServerEnd E k s = Some (rc, s') \<longrightarrow>
            (\<forall>q. is_page_slot q \<longrightarrow> \<not> holds_shared (iClient s) (aMap s' q)
                                   \<and> \<not> holds_write (iClient s) (aMap s' q)))
     \<and> (\<forall>k1 pgno bWrite bBlock rc1 s1 rc2 s2.
            wf_map (aMap s)
            \<and> sqlite3ServerLock E k1 pgno bWrite bBlock s = Some (rc1, s1)
            \<and> sqlite3ServerEnd E k s1 = Some (rc2, s2)
            \<longrightarrow> \<not> holds_shared (iClient s) (aMap s2 (serverPageLockSlot pgno))
              \<and> \<not> holds_write (iClient s) (aMap s2 (serverPageLockSlot pgno)))
     \<and> ((\<forall>t m. peers E t m = m) \<longrightarrow>
            (\<exists>rc s'. sqlite3ServerEnd E (Suc k') s = Some (rc, s')))"
proof -
  have clean: "\<not> contributes (iClient t) (aMap t' q)"
    if "rely E (iClient t)" "0 \<le> iClient t" "iClient t < 16" "covers t"
      "sqlite3ServerEnd E k t = Some (rc, t')" "is_page_slot q" for t t' rc q
  proof -
    from that(5) obtain t1 where
      p: "end_pages E k (history t) t = Some t1"
      and x: "posixLock E (fd t1) (iClient t1 + 1) SERVER_READ_LOCK False (t1\<lparr>nLock := 0\<rparr>) = (rc, t')"
      by (auto simp: sqlite3ServerEnd_def split: option.splits)
    have m: "aMap t' = aMap t1" using posixLock_aMap [OF x] by simp
    have "\<forall>q. is_page_slot q \<and> contributes (iClient t) (aMap t1 q)
           \<longrightarrow> contributes (iClient t) (aMap t q) \<and> q \<notin> serverPageLockSlot ` set (history t)"
      using end_pages_effect [OF that(1-3) refl p] by simp
    then show ?thesis using that(4,6) m by (auto simp: covers_def)
  qed
  have part1: "\<not> holds_shared (iClient s) (aMap s' q) \<and> \<not> holds_write (iClient s) (aMap s' q)"
    if "sqlite3ServerEnd E k s = Some (rc, s')" "is_page_slot q" for rc s' q
    using clean [OF assms that] by (simp add: contributes_def)
  have part2: "\<not> holds_shared (iClient s) (aMap s2 (serverPageLockSlot pgno))
              \<and> \<not> holds_write (iClient s) (aMap s2 (serverPageLockSlot pgno))"
    if w: "wf_map (aMap s)"
      and l: "sqlite3ServerLock E k1 pgno bWrite bBlock s = Some (rc1, s1)"
      and e: "sqlite3ServerEnd E k s1 = Some (rc2, s2)"
    for k1 pgno bWrite bBlock rc1 s1 rc2 s2
  proof -
    let ?i = "iClient s" and ?p = "serverPageLockSlot pgno"
    note le = lock_effect [OF assms(1-3) w l]
    have i1: "iClient s1 = ?i" by (rule le(4))
    have "covers s1"
      unfolding covers_def
    proof (intro allI impI)
      fix q assume q: "is_page_slot q \<and> contributes (iClient s1) (aMap s1 q)"
      show "q \<in> serverPageLockSlot ` set (history s1)"
      proof (cases "q = ?p")
        case False
        then have "contributes ?i (aMap s q)"
          using q le(1) i1 by (auto simp: frame_at_def contributes_def)
        then have "q \<in> serverPageLockSlot ` set (history s)"
          using assms(4) q by (simp add: covers_def)
        then show ?thesis using le(3) by auto
      next
        case True
        from le(3) show ?thesis
        proof
          assume "history s1 = history s @ [pgno]"
          then show ?thesis using True by simp
        next
          assume h: "history s1 = history s \<and> track ?i ?p (aMap s) False (aMap s1)"
          then have "contributes ?i (aMap s ?p)"
            using q True i1 by (auto simp: track_def contributes_def)
          then have "?p \<in> serverPageLockSlot ` set (history s)"
            using assms(4) page_slot_is_page_slot [of pgno] by (simp add: covers_def)
          then show ?thesis using h True by simp
        qed
      qed
    qed
    then have "\<not> contributes (iClient s1) (aMap s2 ?p)"
      using clean [of s1 rc2 s2 ?p] assms(1-3) i1 e page_slot_is_page_slot [of pgno] by simp
    then show ?thesis using i1 by (simp add: contributes_def)
  qed
  have part3: "(\<forall>t m. peers E t m = m) \<longrightarrow>
            (\<exists>rc s'. sqlite3ServerEnd E (Suc k') s = Some (rc, s'))"
    using end_quiet by blast
  show ?thesis using part1 part2 part3 by blast
qed

lemma covers_state_held: "covers state_held"
  by (auto simp: covers_def contributes_def holds_shared_def holds_write_def history_def
      state_held_def state0_def model_defs is_page_slot_def split: if_splits)

lemma covers_state0: "covers state0"
  by (simp add: covers_def contributes_def holds_shared_def holds_write_def
      state0_def model_defs)

lemma wf_map_state0: "wf_map (aMap state0)"
  by (simp add: wf_map_def state0_def write_field_def)

lemma end_state_held:
  "\<exists>s'. sqlite3ServerEnd env0 (Suc 0) state_held = Some (SQLITE_OK, s')"
  by (simp add: end_defs model_defs world_defs Let_def)

lemma end_after_lock_page5:
  "\<exists>s'. sqlite3ServerEnd env0 (Suc 0)
      (state0\<lparr>tick := 3, aMap := (aMap state0)(22 := 1), nAlloc := 128,
             nLock := 1, aLock := (aLock state0)(0 := 5)\<rparr>) = Some (SQLITE_OK, s')"
  by (simp add: end_defs model_defs world_defs Let_def)

theorem end_releases_every_lock_witness:
  "holds_shared 0 (aMap state_held 22)
   \<and> \<not> holds_shared 0 (aMap (snd (the (sqlite3ServerEnd env0 (Suc 0) state_held))) 22)
   \<and> \<not> holds_shared 0 (aMap (snd (the (sqlite3ServerEnd env0 (Suc 0)
         (snd (the (sqlite3ServerLock env0 (Suc (Suc 0)) 5 False False state0)))))) 22)"
proof -
  let ?s1 = "state0\<lparr>tick := 3, aMap := (aMap state0)(22 := 1), nAlloc := 128,
             nLock := 1, aLock := (aLock state0)(0 := 5)\<rparr>"
  obtain s' where e: "sqlite3ServerEnd env0 (Suc 0) state_held = Some (SQLITE_OK, s')"
    using end_state_held by blast
  obtain s2 where e2: "sqlite3ServerEnd env0 (Suc 0) ?s1 = Some (SQLITE_OK, s2)"
    using end_after_lock_page5 by blast
  have h: "rely env0 (iClient state_held)" "0 \<le> iClient state_held" "iClient state_held < 16"
    by (simp_all add: rely_env0 state_held_def state0_def)
  have h0: "rely env0 (iClient state0)" "0 \<le> iClient state0" "iClient state0 < 16"
    by (simp_all add: rely_env0 state0_def)
  have ps: "is_page_slot 22" "serverPageLockSlot 5 = 22" "iClient state_held = 0" "iClient state0 = 0"
    by (simp_all add: is_page_slot_def model_defs state_held_def state0_def)
  have "\<not> holds_shared (iClient state_held) (aMap s' 22)"
    using end_releases_every_lock [OF h covers_state_held, of "Suc 0"] e ps(1) by blast
  then have r1: "\<not> holds_shared 0 (aMap s' 22)" by (simp add: ps)
  have "wf_map (aMap state0)
      \<and> sqlite3ServerLock env0 (Suc (Suc 0)) 5 False False state0 = Some (SQLITE_OK, ?s1)
      \<and> sqlite3ServerEnd env0 (Suc 0) ?s1 = Some (SQLITE_OK, s2)
      \<longrightarrow> \<not> holds_shared (iClient state0) (aMap s2 (serverPageLockSlot 5))
        \<and> \<not> holds_write (iClient state0) (aMap s2 (serverPageLockSlot 5))"
    using end_releases_every_lock [OF h0 covers_state0, of "Suc 0"] by blast
  then have "\<not> holds_shared (iClient state0) (aMap s2 (serverPageLockSlot 5))"
    using wf_map_state0 lock_page5_fresh e2 by blast
  then have r2: "\<not> holds_shared 0 (aMap s2 22)" by (simp add: ps)
  have r3: "holds_shared 0 (aMap state_held 22)"
    by (simp add: holds_shared_def state_held_def state0_def model_defs)
  have a: "snd (the (sqlite3ServerEnd env0 (Suc 0) state_held)) = s'"
    by (simp only: e option.sel snd_conv)
  have b: "snd (the (sqlite3ServerLock env0 (Suc (Suc 0)) 5 False False state0)) = ?s1"
    by (simp only: lock_page5_fresh option.sel snd_conv)
  have c: "snd (the (sqlite3ServerEnd env0 (Suc 0) ?s1)) = s2"
    by (simp only: e2 option.sel snd_conv)
  show ?thesis using r1 r2 r3 by (simp only: a b c simp_thms)
qed

subsection \<open>A failed request stays in the lock-history\<close>

text \<open>
  C10. When \<^verbatim>\<open>sqlite3ServerLock\<close> has grown the buffer where needed, finds the lock not
  already held, and returns a code other than OK, the page is the new last entry of the
  lock-history and \<^verbatim>\<open>nLock\<close> is one more than before; the next
  \<^verbatim>\<open>sqlite3ServerEnd\<close> runs its loop body for that page after the pages recorded before.
  The connection (with a client id from 0 to 15, the write fields in range and the other
  connections leaving its bits alone) does not hold the lock it asked for.
\<close>

theorem failed_lock_stays_in_history:
  assumes "fst (grow_aLock E s) = SQLITE_OK"
      and "\<not> already_held bWrite (iClient s)
             (fst (load E (serverPageLockSlot pgno) (snd (grow_aLock E s))))"
      and "sqlite3ServerLock E k pgno bWrite bBlock s = Some (rc, s')"
      and "rc \<noteq> SQLITE_OK"
  shows "nLock s' = Suc (nLock s) \<and> history s' = history s @ [pgno]
     \<and> sqlite3ServerEnd E k' s' =
         (case end_pages E k' (history s) s' of
            None \<Rightarrow> None
          | Some s1 \<Rightarrow>
              (case end_page E k' pgno s1 of
                 None \<Rightarrow> None
               | Some s2 \<Rightarrow> Some (posixLock E (fd s2) (iClient s2 + 1) SERVER_READ_LOCK False
                                   (s2\<lparr>nLock := 0\<rparr>))))
     \<and> (rely E (iClient s) \<and> 0 \<le> iClient s \<and> iClient s < 16 \<and> wf_map (aMap s)
          \<longrightarrow> \<not> sqlite3ServerHasLock s' pgno bWrite)"
proof -
  have h: "nLock s' = Suc (nLock s)" "history s' = history s @ [pgno]"
    using lock_slow_path [OF assms(1-3)] history_append by auto
  have e: "sqlite3ServerEnd E k' s' =
         (case end_pages E k' (history s) s' of
            None \<Rightarrow> None
          | Some s1 \<Rightarrow>
              (case end_page E k' pgno s1 of
                 None \<Rightarrow> None
               | Some s2 \<Rightarrow> Some (posixLock E (fd s2) (iClient s2 + 1) SERVER_READ_LOCK False
                                   (s2\<lparr>nLock := 0\<rparr>))))"
    by (simp add: h sqlite3ServerEnd_def end_pages_append split: option.splits)
  have n: "\<not> sqlite3ServerHasLock s' pgno bWrite"
    if r: "rely E (iClient s)" and i: "0 \<le> iClient s" "iClient s < 16" and w: "wf_map (aMap s)"
  proof -
    let ?i = "iClient s" and ?p = "serverPageLockSlot pgno"
    obtain v s1 where l: "load E ?p (snd (grow_aLock E s)) = (v, s1)"
      by (cases "load E ?p (snd (grow_aLock E s))")
    have "calm ?i (aMap s) (aMap s1)"
      using calm_load [OF r l] grow_aLock_history(4) [of E s] by simp
    then have k: "holds_shared ?i v \<longleftrightarrow> holds_shared ?i (aMap s ?p)"
      "holds_write ?i v \<longleftrightarrow> holds_write ?i (aMap s ?p)"
      using load_eq [OF l] page_slot_is_page_slot [of pgno] by (simp_all add: calm_def keeps_def)
    have "\<not> (if bWrite then holds_write ?i v else holds_shared ?i v)"
      using assms(2) l already_held_iff [OF i, of bWrite v] by simp
    then have "\<not> (if bWrite then holds_write ?i (aMap s ?p) else holds_shared ?i (aMap s ?p))"
      using k by (auto split: if_splits)
    then have "\<not> (if bWrite then holds_write ?i (aMap s' ?p) else holds_shared ?i (aMap s' ?p))"
      using lock_effect(2) [OF r i w assms(3) assms(4)] by (auto split: if_splits)
    then show ?thesis
      using lock_effect(4) [OF r i w assms(3)] by (auto simp: hasLock_iff split: if_splits)
  qed
  show ?thesis using h e n by blast
qed

theorem failed_lock_stays_in_history_witness:
  "history (snd (the (sqlite3ServerLock env0 (Suc (Suc 0)) 0 True False state_peer))) = [0]
   \<and> history state_peer = []
   \<and> fst (the (sqlite3ServerLock env0 (Suc (Suc 0)) 0 True False state_peer)) = SQLITE_BUSY_DEADLOCK
   \<and> \<not> sqlite3ServerHasLock
         (snd (the (sqlite3ServerLock env0 (Suc (Suc 0)) 0 True False state_peer))) 0 True"
proof -
  obtain s' where e: "sqlite3ServerLock env0 (Suc (Suc 0)) 0 True False state_peer
      = Some (SQLITE_BUSY_DEADLOCK, s')"
    using lock_local_deadlock by blast
  have h1: "fst (grow_aLock env0 state_peer) = SQLITE_OK"
    by (simp add: model_defs world_defs Let_def)
  have h2: "\<not> already_held True (iClient state_peer)
      (fst (load env0 (serverPageLockSlot 0) (snd (grow_aLock env0 state_peer))))"
    by (simp add: model_defs world_defs Let_def)
  have h: "rely env0 (iClient state_peer) \<and> 0 \<le> iClient state_peer \<and> iClient state_peer < 16
      \<and> wf_map (aMap state_peer)"
    by (simp add: rely_env0 wf_map_state_peer) (simp add: state_peer_def state0_def)
  have "history s' = history state_peer @ [0]" "\<not> sqlite3ServerHasLock s' 0 True"
    using failed_lock_stays_in_history [OF h1 h2 e] h by simp_all
  moreover have "history state_peer = []" by (simp add: history_def world_defs)
  ultimately show ?thesis by (simp add: e)
qed

end
